theory Spec2Isabelle
  imports Complex_Main "HOL-Library.Log_Nat" "HOL-Library.Sublist"
begin

section \<open>Python values and exceptions\<close>

text \<open>
  The program is a Python script (\<^verbatim>\<open>app.py\<close>). Exceptions are values of type \<open>error\<close>,
  and a computation that may raise returns \<open>error + 'a\<close> with \<open>Inl\<close> for the exception.
  \<open>Web3Exception\<close> stands for whatever the RPC client raises (unreachable node, unknown
  block, timeout).
\<close>

datatype error =
    ZeroDivisionError
  | OverflowError
  | ValueError
  | OSError
  | AttributeError string
  | KeyError string
  | Web3Exception string

definition ebind :: "error + 'a \<Rightarrow> ('a \<Rightarrow> error + 'b) \<Rightarrow> error + 'b" where
  "ebind m f = (case m of Inl e \<Rightarrow> Inl e | Inr x \<Rightarrow> f x)"

subsection \<open>Floats: IEEE 754 binary64 with round-half-even\<close>

text \<open>
  A Python \<open>float\<close> is a binary64 number. A finite float is represented by its exact
  rational value; every arithmetic operation computes the exact result and rounds it to
  the nearest representable number, ties to even (\<open>binary64\<close>). The sign of a zero is
  not represented: no operation of the program depends on it.
\<close>

definition round_half_even :: "rat \<Rightarrow> int" where
  "round_half_even x =
     (let f = \<lfloor>x\<rfloor>; d = x - of_int f
      in if d < 1 / 2 then f else if 1 / 2 < d then f + 1 else if even f then f else f + 1)"

text \<open>\<open>ilog2 x\<close> is \<open>\<lfloor>log\<^sub>2 x\<rfloor>\<close> for a positive rational \<open>x\<close>.\<close>

definition ilog2 :: "rat \<Rightarrow> int" where
  "ilog2 x =
     (let d = bitlen (fst (quotient_of x)) - bitlen (snd (quotient_of x))
      in if power_int 2 d \<le> x then d else d - 1)"

text \<open>
  Rounding to 53 significant bits with minimal exponent \<open>-1022\<close> (subnormals are the
  multiples of \<open>2 powi -1074\<close>) and no upper bound on the exponent; the operations below
  turn a result of magnitude \<open>2 ^ 1024\<close> or more into an infinity or an exception.
\<close>

definition binary64 :: "rat \<Rightarrow> rat" where
  "binary64 x =
     (if x = 0 then 0
      else let q = max (ilog2 \<bar>x\<bar>) (- 1022) - 52
           in of_int (round_half_even (x / power_int 2 q)) * power_int 2 q)"

datatype pyfloat = Finite rat | PosInf | NegInf | NaN

definition to_double :: "rat \<Rightarrow> pyfloat" where
  "to_double x =
     (let y = binary64 x
      in if 2 ^ 1024 \<le> y then PosInf else if y \<le> - (2 ^ 1024) then NegInf else Finite y)"

text \<open>An operation that raises \<open>OverflowError\<close> instead of returning an infinity.\<close>

definition to_double_checked :: "rat \<Rightarrow> error + pyfloat" where
  "to_double_checked x =
     (case to_double x of Finite y \<Rightarrow> Inr (Finite y) | _ \<Rightarrow> Inl OverflowError)"

definition float_sign :: "pyfloat \<Rightarrow> rat" where
  "float_sign a = (case a of Finite x \<Rightarrow> sgn x | PosInf \<Rightarrow> 1 | NegInf \<Rightarrow> - 1 | NaN \<Rightarrow> 0)"

definition inf_of_sign :: "rat \<Rightarrow> pyfloat" where
  "inf_of_sign s = (if 0 < s then PosInf else if s < 0 then NegInf else NaN)"

definition float_add :: "pyfloat \<Rightarrow> pyfloat \<Rightarrow> pyfloat" where
  "float_add a b =
     (case (a, b) of
        (Finite x, Finite y) \<Rightarrow> to_double (x + y)
      | (NaN, _) \<Rightarrow> NaN
      | (_, NaN) \<Rightarrow> NaN
      | (PosInf, NegInf) \<Rightarrow> NaN
      | (NegInf, PosInf) \<Rightarrow> NaN
      | (Finite x, _) \<Rightarrow> b
      | (_, _) \<Rightarrow> a)"

definition float_mul :: "pyfloat \<Rightarrow> pyfloat \<Rightarrow> pyfloat" where
  "float_mul a b =
     (case (a, b) of
        (Finite x, Finite y) \<Rightarrow> to_double (x * y)
      | (NaN, _) \<Rightarrow> NaN
      | (_, NaN) \<Rightarrow> NaN
      | (_, _) \<Rightarrow> inf_of_sign (float_sign a * float_sign b))"

definition float_div :: "pyfloat \<Rightarrow> pyfloat \<Rightarrow> pyfloat" where
  "float_div a b =
     (case (a, b) of
        (Finite x, Finite y) \<Rightarrow> to_double (x / y)
      | (NaN, _) \<Rightarrow> NaN
      | (_, NaN) \<Rightarrow> NaN
      | (Finite x, _) \<Rightarrow> Finite 0
      | (_, Finite y) \<Rightarrow> inf_of_sign (float_sign a * sgn y)
      | (_, _) \<Rightarrow> NaN)"

text \<open>Float division \<open>a / b\<close>; Python raises on a zero divisor.\<close>

definition float_truediv :: "pyfloat \<Rightarrow> pyfloat \<Rightarrow> error + pyfloat" where
  "float_truediv a b = (if b = Finite 0 then Inl ZeroDivisionError else Inr (float_div a b))"

text \<open>
  \<open>round(x, ndigits)\<close> on a float: infinities and NaN round to themselves; a finite \<open>x\<close>
  is rounded, on its exact value and with ties to even, to \<open>ndigits\<close> decimals, and the
  decimal result is converted back to the nearest float.
\<close>

definition float_round :: "nat \<Rightarrow> pyfloat \<Rightarrow> error + pyfloat" where
  "float_round ndigits a =
     (case a of
        Finite x \<Rightarrow> to_double_checked (of_int (round_half_even (x * 10 ^ ndigits)) / 10 ^ ndigits)
      | _ \<Rightarrow> Inr a)"

definition float_lt :: "pyfloat \<Rightarrow> pyfloat \<Rightarrow> bool" where
  "float_lt a b =
     (case (a, b) of
        (NaN, _) \<Rightarrow> False
      | (_, NaN) \<Rightarrow> False
      | (Finite x, Finite y) \<Rightarrow> x < y
      | (NegInf, NegInf) \<Rightarrow> False
      | (NegInf, _) \<Rightarrow> True
      | (_, PosInf) \<Rightarrow> b \<noteq> a
      | (_, _) \<Rightarrow> False)"

definition float_le :: "pyfloat \<Rightarrow> pyfloat \<Rightarrow> bool" where
  "float_le a b = (a \<noteq> NaN \<and> b \<noteq> NaN \<and> (a = b \<or> float_lt a b))"

subsection \<open>Numbers: \<open>int\<close> or \<open>float\<close>\<close>

datatype num = IntV int | FloatV pyfloat

text \<open>\<open>float(i)\<close>: correctly rounded, \<open>OverflowError\<close> when too large.\<close>

definition float_of_int :: "int \<Rightarrow> error + pyfloat" where
  "float_of_int i = to_double_checked (of_int i)"

text \<open>\<open>a / b\<close> on two ints: the correctly rounded quotient.\<close>

definition int_truediv :: "int \<Rightarrow> int \<Rightarrow> error + pyfloat" where
  "int_truediv a b =
     (if b = 0 then Inl ZeroDivisionError else to_double_checked (of_int a / of_int b))"

fun num_add :: "num \<Rightarrow> num \<Rightarrow> error + num" where
  "num_add (IntV a) (IntV b) = Inr (IntV (a + b))"
| "num_add (IntV a) (FloatV y) = ebind (float_of_int a) (\<lambda>x. Inr (FloatV (float_add x y)))"
| "num_add (FloatV x) (IntV b) = ebind (float_of_int b) (\<lambda>y. Inr (FloatV (float_add x y)))"
| "num_add (FloatV x) (FloatV y) = Inr (FloatV (float_add x y))"

text \<open>\<open>x / n\<close> where \<open>n\<close> is an int.\<close>

fun num_truediv_int :: "num \<Rightarrow> int \<Rightarrow> error + pyfloat" where
  "num_truediv_int (IntV a) n = int_truediv a n"
| "num_truediv_int (FloatV x) n = ebind (float_of_int n) (\<lambda>y. float_truediv x y)"

text \<open>Comparisons between ints and floats are exact.\<close>

definition exact :: "num \<Rightarrow> pyfloat" where
  "exact v = (case v of IntV i \<Rightarrow> Finite (of_int i) | FloatV a \<Rightarrow> a)"

definition num_lt :: "num \<Rightarrow> num \<Rightarrow> bool" where
  "num_lt a b = float_lt (exact a) (exact b)"

definition num_le :: "num \<Rightarrow> num \<Rightarrow> bool" where
  "num_le a b = float_le (exact a) (exact b)"

text \<open>\<open>round(v, ndigits)\<close>: an int is returned unchanged for \<open>ndigits \<ge> 0\<close>.\<close>

fun num_round :: "nat \<Rightarrow> num \<Rightarrow> error + num" where
  "num_round ndigits (IntV i) = Inr (IntV i)"
| "num_round ndigits (FloatV a) = ebind (float_round ndigits a) (\<lambda>r. Inr (FloatV r))"

text \<open>The builtins \<open>sum\<close>, \<open>max\<close> and \<open>min\<close> on a list of numbers.\<close>

fun py_sum_from :: "num \<Rightarrow> num list \<Rightarrow> error + num" where
  "py_sum_from acc [] = Inr acc"
| "py_sum_from acc (x # xs) = ebind (num_add acc x) (\<lambda>acc'. py_sum_from acc' xs)"

definition py_sum :: "num list \<Rightarrow> error + num" where
  "py_sum xs = py_sum_from (IntV 0) xs"

fun py_max :: "num list \<Rightarrow> error + num" where
  "py_max [] = Inl ValueError"
| "py_max (x # xs) = Inr (foldl (\<lambda>maxitem item. if num_lt maxitem item then item else maxitem) x xs)"

fun py_min :: "num list \<Rightarrow> error + num" where
  "py_min [] = Inl ValueError"
| "py_min (x # xs) = Inr (foldl (\<lambda>minitem item. if num_lt item minitem then item else minitem) x xs)"


subsection \<open>Text: \<open>str(int)\<close>, fixed-point formatting, ISO timestamps\<close>

definition digit_char :: "nat \<Rightarrow> char" where
  "digit_char d = ''0123456789'' ! d"

fun show_nat :: "nat \<Rightarrow> string" where
  "show_nat n = (if n < 10 then [digit_char n] else show_nat (n div 10) @ [digit_char (n mod 10)])"

definition show_int :: "int \<Rightarrow> string" where
  "show_int i = (if i < 0 then ''-'' @ show_nat (nat (- i)) else show_nat (nat i))"

definition zero_pad :: "nat \<Rightarrow> string \<Rightarrow> string" where
  "zero_pad w s = replicate (w - length s) (CHR ''0'') @ s"

text \<open>
  The format specification \<open>.Nf\<close> (here with \<open>N > 0\<close>): the exact value of the float
  rounded to \<open>N\<close> decimals, ties to even.
\<close>

definition format_fixed :: "nat \<Rightarrow> pyfloat \<Rightarrow> string" where
  "format_fixed n a =
     (case a of
        Finite x \<Rightarrow>
          (let r = nat (round_half_even (\<bar>x\<bar> * 10 ^ n))
           in (if x < 0 then ''-'' else []) @ show_nat (r div 10 ^ n) @ ''.''
              @ zero_pad n (show_nat (r mod 10 ^ n)))
      | PosInf \<Rightarrow> ''inf''
      | NegInf \<Rightarrow> ''-inf''
      | NaN \<Rightarrow> ''nan'')"

text \<open>
  \<open>datetime.utcfromtimestamp(t).isoformat() + "Z"\<close> for an int \<open>t\<close>, as CPython on
  64-bit Linux does it: years 1 to 9999 are formatted, every other timestamp raises.
\<close>

definition civil_from_days :: "int \<Rightarrow> int \<times> int \<times> int" where
  "civil_from_days z0 =
     (let z = z0 + 719468;
          era = z div 146097;
          doe = z - era * 146097;
          yoe = (doe - doe div 1460 + doe div 36524 - doe div 146096) div 365;
          doy = doe - (365 * yoe + yoe div 4 - yoe div 100);
          mp = (5 * doy + 2) div 153;
          d = doy - (153 * mp + 2) div 5 + 1;
          m = (if mp < 10 then mp + 3 else mp - 9);
          y = yoe + era * 400 + (if m \<le> 2 then 1 else 0)
      in (y, m, d))"

definition utc_isoformat_z :: "int \<Rightarrow> error + string" where
  "utc_isoformat_z t =
     (if t < - (2 ^ 63) \<or> 2 ^ 63 \<le> t then Inl OverflowError
      else if t < - 67768040609740800 \<or> 67768036191676800 \<le> t then Inl OSError
      else if t < - 62135596800 \<or> 253402300800 \<le> t then Inl ValueError
      else let (y, m, d) = civil_from_days (t div 86400);
               s = t mod 86400;
               two = (\<lambda>k. zero_pad 2 (show_nat (nat k)))
           in Inr (zero_pad 4 (show_nat (nat y)) @ ''-'' @ two m @ ''-'' @ two d @ ''T''
                   @ two (s div 3600) @ '':'' @ two (s mod 3600 div 60) @ '':'' @ two (s mod 60)
                   @ ''Z''))"

section \<open>The RPC connection\<close>

text \<open>
  A block header as the RPC client returns it: a dictionary from field names to ints.
  The connection \<open>w3\<close> answers \<open>is_connected()\<close>, \<open>eth.block_number\<close> and
  \<open>eth.get_block(id)\<close>; a block identifier is a tag such as \<open>"latest"\<close> or a number.
  Every remote call and every printed line is recorded as an event, in order.
\<close>

type_synonym rpc_block = "string \<rightharpoonup> int"

datatype block_identifier = Tag string | Num int

record web3 =
  is_connected :: bool
  eth_block_number :: "error + int"
  eth_get_block :: "block_identifier \<Rightarrow> error + rpc_block"

datatype event =
    CallBlockNumber
  | CallGetBlock block_identifier
  | Print string

definition dict_get :: "rpc_block \<Rightarrow> string \<Rightarrow> int \<Rightarrow> int" where
  "dict_get block k dflt = (case block k of None \<Rightarrow> dflt | Some v \<Rightarrow> v)"

definition getattr :: "rpc_block \<Rightarrow> string \<Rightarrow> error + int" where
  "getattr block k = (case block k of None \<Rightarrow> Inl (AttributeError k) | Some v \<Rightarrow> Inr v)"

section \<open>\<open>fetch_gas_data\<close>\<close>

record block_metrics =
  block_number :: int
  base_fee_wei :: int
  gas_limit :: int
  gas_used :: int
  utilization_percent :: num
  timestamp :: string

text \<open>Line 18: \<open>round((gas_used / gas_limit) * 100, 2) if gas_limit else 0\<close>.\<close>

definition utilization :: "int \<Rightarrow> int \<Rightarrow> error + num" where
  "utilization used limit =
     (if limit \<noteq> 0
      then ebind (int_truediv used limit) (\<lambda>q.
           ebind (float_round 2 (float_mul q (Finite 100))) (\<lambda>r. Inr (FloatV r)))
      else Inr (IntV 0))"

definition metrics_of_block :: "rpc_block \<Rightarrow> error + block_metrics" where
  "metrics_of_block block =
     (let base_fee = dict_get block ''baseFeePerGas'' 0;
          limit = dict_get block ''gasLimit'' 0;
          used = dict_get block ''gasUsed'' 0
      in ebind (utilization used limit) (\<lambda>u.
         ebind (getattr block ''number'') (\<lambda>n.
         ebind (getattr block ''timestamp'') (\<lambda>t.
         ebind (utc_isoformat_z t) (\<lambda>iso.
         Inr \<lparr>block_number = n, base_fee_wei = base_fee, gas_limit = limit, gas_used = used,
              utilization_percent = u, timestamp = iso\<rparr>)))))"

definition fetch_gas_data :: "web3 \<Rightarrow> block_identifier \<Rightarrow> event list \<times> (error + block_metrics)" where
  "fetch_gas_data w3 block_id =
     ([CallGetBlock block_id], ebind (eth_get_block w3 block_id) metrics_of_block)"

section \<open>\<open>analyze_blocks\<close>\<close>

text \<open>
  The printed line, with the magnifying-glass emoji as its four UTF-8 bytes:
  \<open>Analyzing block {i} ({processed}/{count}, {percent:.1f}% complete)...\<close>
\<close>

definition progress_line :: "int \<Rightarrow> int \<Rightarrow> int \<Rightarrow> pyfloat \<Rightarrow> string" where
  "progress_line i processed count percent =
     [char_of (0xF0 :: nat), char_of (0x9F :: nat), char_of (0x94 :: nat), char_of (0x8D :: nat)]
     @ '' Analyzing block '' @ show_int i @ '' ('' @ show_int processed @ ''/'' @ show_int count
     @ '', '' @ format_fixed 1 percent @ ''% complete)...''"

text \<open>\<open>percent = (processed / count) * 100\<close>\<close>

definition percent_of :: "int \<Rightarrow> int \<Rightarrow> error + pyfloat" where
  "percent_of processed count =
     ebind (int_truediv processed count) (\<lambda>q. Inr (float_mul q (Finite 100)))"

text \<open>
  The loop over \<open>range(latest - count + 1, latest + 1)\<close>, with the list \<open>blocks\<close> built
  so far. An exception ends the loop; the events up to it have happened.
\<close>

fun analyze_loop ::
  "web3 \<Rightarrow> int \<Rightarrow> int \<Rightarrow> int list \<Rightarrow> block_metrics list \<Rightarrow> event list \<times> (error + block_metrics list)"
where
  "analyze_loop w3 latest count [] blocks = ([], Inr blocks)"
| "analyze_loop w3 latest count (i # rest) blocks =
     (let processed = i - (latest - count + 1) + 1
      in case percent_of processed count of
           Inl e \<Rightarrow> ([], Inl e)
         | Inr percent \<Rightarrow>
             (let line = [Print (progress_line i processed count percent)];
                  (calls, r) = fetch_gas_data w3 (Num i)
              in case r of
                   Inl e \<Rightarrow> (line @ calls, Inl e)
                 | Inr block \<Rightarrow>
                     (let (evs, res) = analyze_loop w3 latest count rest (blocks @ [block])
                      in (line @ calls @ evs, res))))"

definition analyze_blocks :: "web3 \<Rightarrow> int \<Rightarrow> event list \<times> (error + block_metrics list)" where
  "analyze_blocks w3 count =
     (case eth_block_number w3 of
        Inl e \<Rightarrow> ([CallBlockNumber], Inl e)
      | Inr latest \<Rightarrow>
          (let (evs, res) = analyze_loop w3 latest count [latest - count + 1 .. latest] []
           in (CallBlockNumber # evs, res)))"

section \<open>\<open>summarize\<close>\<close>

datatype pyval = BoolV bool | StrV string | NumV num

type_synonym summary = "string \<rightharpoonup> pyval"

definition no_data :: summary where
  "no_data = [''ok'' \<mapsto> BoolV False, ''msg'' \<mapsto> StrV ''No data'']"

definition summarize :: "block_metrics list \<Rightarrow> error + summary" where
  "summarize blocks =
     (if blocks = [] then Inr no_data
      else
        let utils = map utilization_percent blocks
        in ebind (py_sum utils) (\<lambda>total.
           ebind (num_truediv_int total (int (length utils))) (\<lambda>avg_util.
           ebind (py_max utils) (\<lambda>high.
           ebind (py_min utils) (\<lambda>low.
           ebind (int_truediv (sum_list (map base_fee_wei blocks)) (int (length blocks))) (\<lambda>avg_base_fee.
           ebind (float_round 2 avg_util) (\<lambda>r_avg.
           ebind (num_round 2 high) (\<lambda>r_high.
           ebind (num_round 2 low) (\<lambda>r_low.
           ebind (float_truediv avg_base_fee (Finite 1000000000)) (\<lambda>gwei.
           ebind (float_round 3 gwei) (\<lambda>r_fee.
           Inr [''avg_utilization_percent'' \<mapsto> NumV (FloatV r_avg),
                ''max_utilization_percent'' \<mapsto> NumV r_high,
                ''min_utilization_percent'' \<mapsto> NumV r_low,
                ''avg_base_fee_gwei'' \<mapsto> NumV (FloatV r_fee),
                ''total_blocks'' \<mapsto> NumV (IntV (int (length blocks)))])))))))))))"

section \<open>\<open>main\<close>\<close>

record args =
  rpc :: string
  count :: int
  json :: bool
  timeout :: int

text \<open>
  How the process ends: \<open>sys.exit(n)\<close>, or an exception that nothing catches, on which
  the interpreter prints a traceback and exits with status 1.
\<close>

datatype outcome = Exit int | Uncaught error

definition exit_status :: "outcome \<Rightarrow> int" where
  "exit_status out = (case out of Exit n \<Rightarrow> n | Uncaught e \<Rightarrow> 1)"

definition subscript :: "summary \<Rightarrow> string \<Rightarrow> error + pyval" where
  "subscript d k = (case d k of None \<Rightarrow> Inl (KeyError k) | Some v \<Rightarrow> Inr v)"

text \<open>
  The control flow of \<open>main\<close>, given the parsed arguments and the connection made from
  them. The \<open>try\<close> block covers \<open>analyze_blocks\<close> and \<open>summarize\<close> only; the five reads
  of the summary that follow it (lines 94 to 98) are outside. The texts \<open>main\<close> prints
  are not modelled.
\<close>

definition main :: "args \<Rightarrow> web3 \<Rightarrow> outcome" where
  "main a w3 =
     (if \<not> (prefix ''http://'' (rpc a) \<or> prefix ''https://'' (rpc a)) then Exit 1
      else if \<not> is_connected w3 then Exit 1
      else case ebind (snd (analyze_blocks w3 (count a))) summarize of
             Inl e \<Rightarrow> Exit 2
           | Inr summary \<Rightarrow>
               (case ebind (subscript summary ''avg_utilization_percent'') (\<lambda>_.
                     ebind (subscript summary ''max_utilization_percent'') (\<lambda>_.
                     ebind (subscript summary ''min_utilization_percent'') (\<lambda>_.
                     ebind (subscript summary ''avg_base_fee_gwei'') (\<lambda>_.
                     subscript summary ''total_blocks'')))) of
                  Inl e \<Rightarrow> Uncaught e
                | Inr _ \<Rightarrow> Exit 0))"

section \<open>Example inputs\<close>

text \<open>
  A node whose chain has the blocks \<open>0, \<dots>, head\<close>, each half full, and that knows no
  other block.
\<close>

definition sample_header :: "int \<Rightarrow> rpc_block" where
  "sample_header i =
     [''number'' \<mapsto> i, ''timestamp'' \<mapsto> 1700000000 + 12 * i, ''gasLimit'' \<mapsto> 30000000,
      ''gasUsed'' \<mapsto> 15000000, ''baseFeePerGas'' \<mapsto> 1000000000]"

definition sample_node :: "int \<Rightarrow> web3" where
  "sample_node head =
     \<lparr>is_connected = True,
      eth_block_number = Inr head,
      eth_get_block = (\<lambda>b. case b of
          Num i \<Rightarrow> if 0 \<le> i \<and> i \<le> head then Inr (sample_header i)
                   else Inl (Web3Exception ''BlockNotFound'')
        | Tag s \<Rightarrow> if s = ''latest'' then Inr (sample_header head)
                   else Inl (Web3Exception ''BlockNotFound''))\<rparr>"

definition sample_args :: "int \<Rightarrow> args" where
  "sample_args n = \<lparr>rpc = ''https://node.example'', count = n, json = False, timeout = 30\<rparr>"

section \<open>Notions used in the statements\<close>

text \<open>
  The percentage \<open>processed / count * 100\<close> as the program computes it in float
  arithmetic when \<open>1 \<le> processed \<le> count\<close>, and the line printed for block \<open>i\<close> of a
  run over the last \<open>n\<close> blocks up to \<open>latest\<close>.
\<close>

definition percent_complete :: "int \<Rightarrow> int \<Rightarrow> pyfloat" where
  "percent_complete processed n = Finite (binary64 (binary64 (of_int processed / of_int n) * 100))"

definition notification :: "int \<Rightarrow> int \<Rightarrow> int \<Rightarrow> event" where
  "notification latest n i =
     (let processed = i - (latest - n + 1) + 1
      in Print (progress_line i processed n (percent_complete processed n)))"

text \<open>The specification's \<open>round(gas_used / gas_limit * 100, 2)\<close>, in Python arithmetic.\<close>

definition round_percent :: "int \<Rightarrow> int \<Rightarrow> error + pyfloat" where
  "round_percent used limit =
     ebind (int_truediv used limit) (\<lambda>q. float_round 2 (float_mul q (Finite 100)))"

text \<open>A node that answers every \<open>get_block\<close> with one given header.\<close>

definition node_serving :: "rpc_block \<Rightarrow> web3" where
  "node_serving header =
     \<lparr>is_connected = True, eth_block_number = Inr 7, eth_get_block = (\<lambda>b. Inr header)\<rparr>"

definition header_without_gas_limit :: rpc_block where
  "header_without_gas_limit =
     [''number'' \<mapsto> 7, ''timestamp'' \<mapsto> 1700000000, ''gasUsed'' \<mapsto> 15000000,
      ''baseFeePerGas'' \<mapsto> 1000000000]"

definition header_without_gas_used :: rpc_block where
  "header_without_gas_used =
     [''number'' \<mapsto> 7, ''timestamp'' \<mapsto> 1700000000, ''gasLimit'' \<mapsto> 30000000,
      ''baseFeePerGas'' \<mapsto> 1000000000]"

text \<open>
  A value of type \<open>pyfloat\<close> stands for a Python float when its finite value is a
  binary64 number: rounding does not change it and it is below \<open>2 ^ 1024\<close> in magnitude.
\<close>

definition is_double :: "pyfloat \<Rightarrow> bool" where
  "is_double a = (case a of Finite x \<Rightarrow> binary64 x = x \<and> \<bar>x\<bar> < 2 ^ 1024 | _ \<Rightarrow> True)"

text \<open>
  A utilization value as a record can hold it: the int \<open>0\<close> or a float.
\<close>

definition float_or_zero :: "num \<Rightarrow> bool" where
  "float_or_zero u = (case u of IntV i \<Rightarrow> i = 0 | FloatV a \<Rightarrow> is_double a)"

text \<open>The arithmetic mean \<open>sum(xs) / len(xs)\<close>, in Python arithmetic.\<close>

definition py_mean :: "num list \<Rightarrow> error + pyfloat" where
  "py_mean xs = ebind (py_sum xs) (\<lambda>total. num_truediv_int total (int (length xs)))"

text \<open>A maximum (minimum) of a list: an element that no element exceeds (is below).\<close>

definition is_maximum :: "num \<Rightarrow> num list \<Rightarrow> bool" where
  "is_maximum u us = (u \<in> set us \<and> (\<forall>v \<in> set us. \<not> num_lt u v))"

definition is_minimum :: "num \<Rightarrow> num list \<Rightarrow> bool" where
  "is_minimum u us = (u \<in> set us \<and> (\<forall>v \<in> set us. \<not> num_lt v u))"

text \<open>
  The utilization of a record is derived from its gas fields as \<open>fetch_gas_data\<close>
  derives it.
\<close>

definition derived_utilization :: "block_metrics \<Rightarrow> bool" where
  "derived_utilization b = (utilization (gas_used b) (gas_limit b) = Inr (utilization_percent b))"

text \<open>
  Three blocks with utilization 10.0, 20.0 and 30.0 and base fees of 1, 2 and 3 gwei;
  and one block whose base fee is \<open>2 ^ 1024\<close> wei.
\<close>

definition scenario_blocks :: "block_metrics list" where
  "scenario_blocks =
     [\<lparr>block_number = 998, base_fee_wei = 1000000000, gas_limit = 30000000, gas_used = 3000000,
       utilization_percent = FloatV (Finite 10), timestamp = ''2023-11-15T01:32:56Z''\<rparr>,
      \<lparr>block_number = 999, base_fee_wei = 2000000000, gas_limit = 30000000, gas_used = 6000000,
       utilization_percent = FloatV (Finite 20), timestamp = ''2023-11-15T01:33:08Z''\<rparr>,
      \<lparr>block_number = 1000, base_fee_wei = 3000000000, gas_limit = 30000000, gas_used = 9000000,
       utilization_percent = FloatV (Finite 30), timestamp = ''2023-11-15T01:33:20Z''\<rparr>]"

definition huge_fee_block :: block_metrics where
  "huge_fee_block =
     \<lparr>block_number = 7, base_fee_wei = 2 ^ 1024, gas_limit = 30000000, gas_used = 15000000,
      utilization_percent = FloatV (Finite 50), timestamp = ''2023-11-14T22:14:44Z''\<rparr>"

text \<open>
  A block as a misbehaving node may report it, with far more gas used than the limit,
  and two blocks within their limit.
\<close>

definition overfull_block :: block_metrics where
  "overfull_block =
     \<lparr>block_number = 7, base_fee_wei = 1000000000, gas_limit = 1, gas_used = 8097313701392197,
      utilization_percent = FloatV (Finite 809731370139219712),
      timestamp = ''2023-11-14T22:14:44Z''\<rparr>"

definition regular_blocks :: "block_metrics list" where
  "regular_blocks =
     [\<lparr>block_number = 999, base_fee_wei = 1000000000, gas_limit = 30000000, gas_used = 15000000,
       utilization_percent = FloatV (Finite 50), timestamp = ''2023-11-15T01:33:08Z''\<rparr>,
      \<lparr>block_number = 1000, base_fee_wei = 3000000000, gas_limit = 30000000, gas_used = 30000000,
       utilization_percent = FloatV (Finite 100), timestamp = ''2023-11-15T01:33:20Z''\<rparr>]"

text \<open>
  The float nearest to \<open>k / 100\<close>, which is what \<open>round(x, 2)\<close> returns when \<open>x\<close> rounds
  to \<open>k\<close> hundredths; a utilization between 0 and 100 percent; the rational value of a
  finite number.
\<close>

definition percent_value :: "int \<Rightarrow> rat" where
  "percent_value k = binary64 (of_int k / 100)"

definition is_percent :: "num \<Rightarrow> bool" where
  "is_percent u = (u = IntV 0 \<or> (\<exists>k \<in> {0 .. 10000}. u = FloatV (Finite (percent_value k))))"

definition num_value :: "num \<Rightarrow> rat" where
  "num_value u = (case u of IntV i \<Rightarrow> of_int i | FloatV (Finite x) \<Rightarrow> x | _ \<Rightarrow> 0)"

text \<open>A number between 0 and 100.\<close>

definition within_0_100 :: "num \<Rightarrow> bool" where
  "within_0_100 u = (num_le (IntV 0) u \<and> num_le u (IntV 100))"

text \<open>
  The accumulator of \<open>sum\<close> after \<open>j\<close> utilization values between \<open>a\<close> and \<open>b\<close>: still the
  int 0, or a finite float, and between \<open>j * a\<close> and \<open>j * b\<close>.
\<close>

definition sum_inv :: "rat \<Rightarrow> rat \<Rightarrow> nat \<Rightarrow> num \<Rightarrow> bool" where
  "sum_inv a b j acc =
     ((acc = IntV 0 \<or> (\<exists>s. acc = FloatV (Finite s)))
      \<and> of_nat j * a \<le> num_value acc \<and> num_value acc \<le> of_nat j * b)"

definition quarter_blocks :: "block_metrics list" where
  "quarter_blocks =
     [\<lparr>block_number = 999, base_fee_wei = 1000000000, gas_limit = 30000000, gas_used = 7500000,
       utilization_percent = FloatV (Finite 25), timestamp = ''2023-11-15T01:33:08Z''\<rparr>,
      \<lparr>block_number = 1000, base_fee_wei = 1000000000, gas_limit = 30000000, gas_used = 22500000,
       utilization_percent = FloatV (Finite 75), timestamp = ''2023-11-15T01:33:20Z''\<rparr>]"

text \<open>
  A very long sequence of blocks within their gas limit: \<open>2 ^ 52\<close> blocks that are 64
  percent full followed by \<open>3 * 2 ^ 51\<close> full blocks.
\<close>

definition steady_block :: block_metrics where
  "steady_block =
     \<lparr>block_number = 1, base_fee_wei = 0, gas_limit = 25, gas_used = 16,
      utilization_percent = FloatV (Finite 64), timestamp = ''2023-11-14T22:13:32Z''\<rparr>"

definition full_block :: block_metrics where
  "full_block =
     \<lparr>block_number = 2, base_fee_wei = 0, gas_limit = 30000000, gas_used = 30000000,
      utilization_percent = FloatV (Finite 100), timestamp = ''2023-11-14T22:13:44Z''\<rparr>"

definition long_sequence :: "block_metrics list" where
  "long_sequence = replicate (2 ^ 52) steady_block @ replicate (3 * 2 ^ 51) full_block"

section \<open>Properties of the float operations\<close>

subsection \<open>Rounding to an integer, ties to even\<close>

lemma rhe_cases: "round_half_even x = \<lfloor>x\<rfloor> \<or> round_half_even x = \<lfloor>x\<rfloor> + 1"
  by (simp add: round_half_even_def Let_def)

lemma rhe_of_int [simp]: "round_half_even (of_int k) = k"
  by (simp add: round_half_even_def)

lemma rhe_lower: "of_int (round_half_even x) \<ge> x - 1/2"
  unfolding round_half_even_def Let_def by (auto; linarith)

lemma rhe_upper: "of_int (round_half_even x) \<le> x + 1/2"
  unfolding round_half_even_def Let_def by (auto; linarith)

lemma rhe_mono: assumes "x \<le> y" shows "round_half_even x \<le> round_half_even y"
proof (cases "\<lfloor>x\<rfloor> < \<lfloor>y\<rfloor>")
  case True
  have "round_half_even x \<le> \<lfloor>x\<rfloor> + 1" using rhe_cases [of x] by auto
  also have "\<dots> \<le> \<lfloor>y\<rfloor>" using True by simp
  also have "\<dots> \<le> round_half_even y" using rhe_cases [of y] by auto
  finally show ?thesis .
next
  case False
  with assms have eq: "\<lfloor>x\<rfloor> = \<lfloor>y\<rfloor>" using floor_mono [of x y] by linarith
  then show ?thesis using assms
    unfolding round_half_even_def Let_def by auto
qed

lemma rhe_minus: "round_half_even (- x) = - round_half_even x"
proof (cases "x \<in> \<int>")
  case True
  then obtain k where "x = of_int k" by (auto elim: Ints_cases)
  then show ?thesis using rhe_of_int [of "- k"] by simp
next
  case False
  then have "x \<noteq> of_int \<lfloor>x\<rfloor>" by (metis Ints_of_int)
  then have fl: "\<lfloor>- x\<rfloor> = - \<lfloor>x\<rfloor> - 1"
    by (simp add: floor_minus ceiling_altdef)
  show ?thesis
    unfolding round_half_even_def Let_def fl
    by (auto; linarith)
qed


lemma two_powi_pos [simp]: "0 < (2::rat) powi k"
  by (simp add: power_int_def)

lemma ilog2_bounds:
  assumes "0 < x"
  shows "2 powi (ilog2 x) \<le> x \<and> x < 2 powi (ilog2 x + 1)"
proof -
  obtain a b where ab: "quotient_of x = (a, b)" by (cases "quotient_of x")
  then have b: "0 < b" and x: "x = of_int a / of_int b"
    by (auto simp: quotient_of_denom_pos quotient_of_div)
  with assms have a: "0 < a" by (simp add: zero_less_divide_iff)
  define la lb where "la = bitlen a" and "lb = bitlen b"
  have la: "2 ^ nat (la - 1) \<le> a" "a < 2 ^ nat la" and lb: "2 ^ nat (lb - 1) \<le> b" "b < 2 ^ nat lb"
    using bitlen_bounds [OF a] bitlen_bounds [OF b] by (auto simp: la_def lb_def)
  have la1: "1 \<le> la" and lb1: "1 \<le> lb" using a b by (auto simp: la_def lb_def bitlen_alt_def)
  have A1: "(2::rat) powi (la - 1) \<le> of_int a" 
    using la(1) la1 by (simp add: power_int_def)
  have A2: "of_int a < (2::rat) powi la"
    using la(2) la1 by (simp add: power_int_def)
  have B1: "(2::rat) powi (lb - 1) \<le> of_int b" 
    using lb(1) lb1 by (simp add: power_int_def)
  have B2: "of_int b < (2::rat) powi lb"
    using lb(2) lb1 by (simp add: power_int_def)
  have up: "x < 2 powi (la - lb + 1)"
  proof -
    have "of_int a * 2 powi (lb - 1) < (2::rat) powi la * of_int b"
      using A2 B1 a b by (intro mult_less_le_imp_less) auto
    then have "of_int a < (2::rat) powi la / 2 powi (lb - 1) * of_int b"
      by (simp add: field_simps)
    also have "(2::rat) powi la / 2 powi (lb - 1) = 2 powi (la - lb + 1)"
      by (simp add: power_int_diff [symmetric] algebra_simps)
    finally show ?thesis using b by (simp add: x field_simps)
  qed
  have lo: "2 powi (la - lb - 1) < x"
  proof -
    have "(2::rat) powi (la - 1) * of_int b < of_int a * 2 powi lb"
      using A1 B2 a b by (intro mult_le_less_imp_less) auto
    then have "(2::rat) powi (la - 1) / 2 powi lb * of_int b < of_int a"
      by (simp add: field_simps)
    also have "(2::rat) powi (la - 1) / 2 powi lb = 2 powi (la - lb - 1)"
      by (simp add: power_int_diff [symmetric] algebra_simps)
    finally show ?thesis using b by (simp add: x field_simps)
  qed
  show ?thesis
    using up lo unfolding ilog2_def Let_def ab fst_conv snd_conv la_def [symmetric] lb_def [symmetric]
    by (auto simp: not_le algebra_simps)
qed

subsection \<open>The binary exponent\<close>

lemma two_powi_less_iff [simp]: "(2::rat) powi a < 2 powi b \<longleftrightarrow> a < b"
proof
  assume "(2::rat) powi a < 2 powi b"
  show "a < b"
  proof (rule ccontr)
    assume "\<not> a < b"
    then have "(2::rat) powi b \<le> 2 powi a" by (intro power_int_increasing) auto
    with \<open>(2::rat) powi a < 2 powi b\<close> show False by simp
  qed
next
  assume "a < b"
  then show "(2::rat) powi a < 2 powi b" by (intro power_int_strict_increasing) auto
qed

lemma two_powi_le_iff [simp]: "(2::rat) powi a \<le> 2 powi b \<longleftrightarrow> a \<le> b"
  using two_powi_less_iff [of b a] by (simp only: not_less [symmetric])

lemma ilog2_unique:
  assumes "2 powi e \<le> x" and "x < 2 powi (e + 1)"
  shows "ilog2 x = e"
proof -
  have x: "0 < x" using assms(1) two_powi_pos [of e] by linarith
  note b = ilog2_bounds [OF x]
  have "2 powi e < (2::rat) powi (ilog2 x + 1)" using assms(1) b by linarith
  then have 1: "e < ilog2 x + 1" by simp
  have "2 powi (ilog2 x) < (2::rat) powi (e + 1)" using assms(2) b by linarith
  then have 2: "ilog2 x < e + 1" by simp
  from 1 2 show ?thesis by simp
qed

lemma ilog2_mono:
  assumes "0 < x" and "x \<le> y"
  shows "ilog2 x \<le> ilog2 y"
proof -
  have y: "0 < y" using assms by simp
  have "2 powi (ilog2 x) < (2::rat) powi (ilog2 y + 1)"
    using ilog2_bounds [OF assms(1)] ilog2_bounds [OF y] assms(2) by linarith
  then show ?thesis by simp
qed

subsection \<open>Rounding to binary64 is monotone\<close>

lemma two_powi_add: "(2::rat) powi a * 2 powi b = 2 powi (a + b)"
  by (simp add: power_int_add)

lemma binary64_zero [simp]: "binary64 0 = 0"
  by (simp add: binary64_def)

lemma binary64_minus: "binary64 (- x) = - binary64 x"
  by (simp add: binary64_def Let_def rhe_minus)

lemma binary64_nonneg:
  assumes "0 \<le> x" shows "0 \<le> binary64 x"
proof (cases "x = 0")
  case False
  define q where "q = max (ilog2 \<bar>x\<bar>) (- 1022) - 52"
  have "0 \<le> x / 2 powi q" using assms by simp
  then have "round_half_even 0 \<le> round_half_even (x / 2 powi q)" by (rule rhe_mono)
  then have "0 \<le> round_half_even (x / 2 powi q)" using rhe_of_int [of 0] by simp
  then show ?thesis using False by (simp add: binary64_def Let_def q_def [symmetric])
qed simp

lemma binary64_upper:
  assumes "0 < x"
  shows "binary64 x \<le> 2 powi (max (ilog2 x) (- 1022) + 1)"
proof -
  define E where "E = max (ilog2 x) (- 1022)"
  define q where "q = E - 52"
  have "x < 2 powi (ilog2 x + 1)" using ilog2_bounds [OF assms] by simp
  also have "\<dots> \<le> 2 powi (E + 1)" by (simp add: E_def)
  finally have "x / 2 powi q \<le> 2 powi (E + 1) / 2 powi q" by (simp add: divide_right_mono)
  also have "\<dots> = 2 powi 53" by (simp add: q_def power_int_diff [symmetric])
  also have "\<dots> = of_int (2 ^ 53)" by simp
  finally have "round_half_even (x / 2 powi q) \<le> round_half_even (of_int (2 ^ 53))" by (rule rhe_mono)
  then have "round_half_even (x / 2 powi q) \<le> 2 ^ 53" by (simp only: rhe_of_int)
  then have "(of_int (round_half_even (x / 2 powi q)) :: rat) \<le> of_int (2 ^ 53)" by (simp only: of_int_le_iff)
  then have "of_int (round_half_even (x / 2 powi q)) * 2 powi q \<le> (2 powi 53 :: rat) * 2 powi q"
    by (intro mult_right_mono) auto
  also have "(2 powi 53 :: rat) * 2 powi q = 2 powi (E + 1)"
    unfolding q_def two_powi_add by (simp add: add.commute)
  finally show ?thesis using assms
    by (simp add: binary64_def Let_def q_def [symmetric] E_def [symmetric] abs_of_pos)
qed

lemma binary64_lower:
  assumes "0 < x" and "- 1022 \<le> ilog2 x"
  shows "2 powi (ilog2 x) \<le> binary64 x"
proof -
  define E where "E = ilog2 x"
  define q where "q = E - 52"
  define r where "r = round_half_even (x / 2 powi q)"
  have "2 powi E \<le> x" using ilog2_bounds [OF assms(1)] by (simp add: E_def)
  then have "2 powi E / 2 powi q \<le> x / 2 powi q" by (simp add: divide_right_mono)
  moreover have "2 powi E / 2 powi q = (2 powi 52 :: rat)" by (simp add: q_def power_int_diff [symmetric])
  moreover have "(2 powi 52 :: rat) = of_int (2 ^ 52)" by simp
  ultimately have "round_half_even (of_int (2 ^ 52)) \<le> r"
    unfolding r_def by (intro rhe_mono) simp
  then have "2 ^ 52 \<le> r" by (simp only: rhe_of_int)
  then have "(of_int (2 ^ 52) :: rat) \<le> of_int r" by (simp only: of_int_le_iff)
  then have 1: "(2 powi 52 :: rat) * 2 powi q \<le> of_int r * 2 powi q"
    by (intro mult_right_mono) auto
  have 2: "(2 powi 52 :: rat) * 2 powi q = 2 powi E"
    unfolding q_def two_powi_add by simp
  have 3: "binary64 x = of_int r * 2 powi q"
    using assms by (simp add: binary64_def Let_def abs_of_pos q_def E_def max_def r_def)
  from 1 show ?thesis unfolding 2 3 E_def .
qed

lemma binary64_mono_pos:
  assumes "0 < x" and "x \<le> y"
  shows "binary64 x \<le> binary64 y"
proof -
  have y: "0 < y" using assms by simp
  define Ex Ey where "Ex = max (ilog2 x) (- 1022)" and "Ey = max (ilog2 y) (- 1022)"
  have le: "Ex \<le> Ey" using ilog2_mono [OF assms] by (auto simp: Ex_def Ey_def)
  show ?thesis
  proof (cases "Ex = Ey")
    case True
    have "x / 2 powi (Ey - 52) \<le> y / 2 powi (Ey - 52)" using assms(2) by (simp add: divide_right_mono)
    then have "round_half_even (x / 2 powi (Ey - 52)) \<le> round_half_even (y / 2 powi (Ey - 52))"
      by (rule rhe_mono)
    then have "(of_int (round_half_even (x / 2 powi (Ey - 52))) :: rat) * 2 powi (Ey - 52)
        \<le> of_int (round_half_even (y / 2 powi (Ey - 52))) * 2 powi (Ey - 52)"
      by (intro mult_right_mono) auto
    then show ?thesis using assms(1) y True
      by (simp add: binary64_def Let_def Ex_def [symmetric] Ey_def [symmetric] abs_of_pos)
  next
    case False
    with le have lt: "Ex < Ey" by simp
    then have Ey: "Ey = ilog2 y" and big: "- 1022 \<le> ilog2 y" by (auto simp: Ex_def Ey_def)
    have "binary64 x \<le> 2 powi (Ex + 1)" using binary64_upper [OF assms(1)] by (simp add: Ex_def)
    also have "\<dots> \<le> 2 powi Ey" using lt by simp
    also have "\<dots> \<le> binary64 y" using binary64_lower [OF y big] by (simp add: Ey)
    finally show ?thesis .
  qed
qed

lemma binary64_mono:
  assumes "x \<le> y"
  shows "binary64 x \<le> binary64 y"
proof -
  consider "0 < x" | "x \<le> 0" "0 \<le> y" | "y < 0" using assms by linarith
  then show ?thesis
  proof cases
    case 1 then show ?thesis using assms by (rule binary64_mono_pos)
  next
    case 2
    have "binary64 x \<le> 0" using binary64_nonneg [of "- x"] 2(1) by (simp add: binary64_minus)
    also have "0 \<le> binary64 y" using 2(2) by (rule binary64_nonneg)
    finally show ?thesis .
  next
    case 3
    have "binary64 (- y) \<le> binary64 (- x)" using 3 assms by (intro binary64_mono_pos) auto
    then show ?thesis by (simp add: binary64_minus)
  qed
qed

subsection \<open>Representable numbers are not changed\<close>

lemma binary64_exact:
  assumes m: "\<bar>m\<bar> < 2 ^ 53" and k: "- 1074 \<le> k"
  shows "binary64 (of_int m * 2 powi k) = of_int m * 2 powi k"
proof (cases "m = 0")
  case False
  define x :: rat where "x = of_int m * 2 powi k"
  define E where "E = max (ilog2 \<bar>x\<bar>) (- 1022)"
  define q where "q = E - 52"
  have x0: "x \<noteq> 0" and xpos: "0 < \<bar>x\<bar>" using False by (auto simp: x_def)
  have absx: "\<bar>x\<bar> = of_int \<bar>m\<bar> * 2 powi k" by (simp add: x_def abs_mult)
  have qk: "q \<le> k"
  proof (rule ccontr)
    assume "\<not> q \<le> k"
    then have "k < q" by simp
    then have E: "E = ilog2 \<bar>x\<bar>" using k by (auto simp: q_def E_def max_def)
    have "2 powi E \<le> \<bar>x\<bar>" using ilog2_bounds [OF xpos] by (simp add: E)
    also have "\<bar>x\<bar> < of_int (2 ^ 53) * 2 powi k"
      unfolding absx using m by (intro mult_strict_right_mono) (auto simp only: of_int_less_iff two_powi_pos)
    also have "(of_int (2 ^ 53) :: rat) * 2 powi k = 2 powi (53 + k)"
      using two_powi_add [of 53 k] by simp
    finally have "E < 53 + k" by simp
    with \<open>k < q\<close> show False by (simp add: q_def)
  qed
  have "x / 2 powi q = of_int m * (2 powi k / 2 powi q)" by (simp add: x_def)
  also have "2 powi k / 2 powi q = (2::rat) powi (k - q)" by (simp add: power_int_diff)
  also have "\<dots> = of_int (2 ^ nat (k - q))" using qk by (simp add: power_int_def)
  finally have "x / 2 powi q = of_int (m * 2 ^ nat (k - q))" by simp
  then have "round_half_even (x / 2 powi q) = m * 2 ^ nat (k - q)" by (simp only: rhe_of_int)
  then have "binary64 x = of_int (m * 2 ^ nat (k - q)) * 2 powi q"
    using x0 by (simp add: binary64_def Let_def E_def [symmetric] q_def [symmetric])
  also have "\<dots> = of_int m * ((2::rat) powi (k - q) * 2 powi q)" using qk by (simp add: power_int_def)
  also have "(2::rat) powi (k - q) * 2 powi q = 2 powi k" unfolding two_powi_add by simp
  finally show ?thesis by (simp add: x_def)
qed simp

lemma binary64_of_int:
  assumes "\<bar>i\<bar> < 2 ^ 53"
  shows "binary64 (of_int i) = of_int i"
  using binary64_exact [OF assms, of 0] by simp

subsection \<open>Results that stay finite\<close>

lemma to_double_finite:
  assumes "- (2 ^ 1024) < binary64 x" and "binary64 x < 2 ^ 1024"
  shows "to_double x = Finite (binary64 x)"
  using assms by (simp add: to_double_def Let_def)

lemma binary64_between:
  assumes "a \<le> x" and "x \<le> b" and "binary64 a = a" and "binary64 b = b"
  shows "a \<le> binary64 x \<and> binary64 x \<le> b"
  using binary64_mono [OF assms(1)] binary64_mono [OF assms(2)] assms(3,4) by simp

lemma binary64_numeral [simp]:
  "numeral k < (2::int) ^ 53 \<Longrightarrow> binary64 (numeral k) = numeral k"
  using binary64_of_int [of "numeral k"] by simp

lemma binary64_one [simp]: "binary64 1 = 1"
  using binary64_of_int [of 1] by simp

lemma rhe_numeral [simp]: "round_half_even (numeral k) = numeral k"
  using rhe_of_int [of "numeral k"] by simp

lemma rhe_zero [simp]: "round_half_even 0 = 0"
  using rhe_of_int [of 0] by simp

lemma rhe_one [simp]: "round_half_even 1 = 1"
  using rhe_of_int [of 1] by simp

lemma to_double_between:
  assumes "a \<le> x" and "x \<le> b" and "binary64 a = a" and "binary64 b = b"
    and "- (2 ^ 1024) < a" and "b < 2 ^ 1024"
  shows "to_double x = Finite (binary64 x)"
  using binary64_between [OF assms(1-4)] assms(5,6) by (intro to_double_finite) linarith+

text \<open>Quotients of ints between 0 and 1, and their percentage.\<close>

lemma int_truediv_unit:
  assumes "0 \<le> a" and "a \<le> b" and "0 < b"
  shows "int_truediv a b = Inr (Finite (binary64 (of_int a / of_int b)))"
    and "0 \<le> binary64 (of_int a / of_int b)" and "binary64 (of_int a / of_int b) \<le> 1"
proof -
  have q: "0 \<le> (of_int a / of_int b :: rat)" "(of_int a / of_int b :: rat) \<le> 1"
    using assms by (simp_all add: divide_le_eq)
  from binary64_between [OF q] show "0 \<le> binary64 (of_int a / of_int b)" "binary64 (of_int a / of_int b) \<le> 1"
    by simp_all
  have "to_double (of_int a / of_int b) = Finite (binary64 (of_int a / of_int b))"
    using q by (intro to_double_between [of 0 _ 1]) simp_all
  then show "int_truediv a b = Inr (Finite (binary64 (of_int a / of_int b)))"
    using assms by (simp add: int_truediv_def to_double_checked_def)
qed

lemma times_100_unit:
  assumes "0 \<le> q" and "q \<le> 1"
  shows "float_mul (Finite q) (Finite 100) = Finite (binary64 (q * 100))"
    and "0 \<le> binary64 (q * 100)" and "binary64 (q * 100) \<le> 100"
proof -
  have p: "0 \<le> q * 100" "q * 100 \<le> 100" using assms by simp_all
  from binary64_between [OF p] show "0 \<le> binary64 (q * 100)" "binary64 (q * 100) \<le> 100"
    by simp_all
  have "to_double (q * 100) = Finite (binary64 (q * 100))"
    using p by (intro to_double_between [of 0 _ 100]) simp_all
  then show "float_mul (Finite q) (Finite 100) = Finite (binary64 (q * 100))"
    by (simp add: float_mul_def)
qed

lemma percent_of_ok:
  assumes "1 \<le> p" and "p \<le> n"
  shows "percent_of p n = Inr (percent_complete p n)"
proof -
  have n: "0 < n" "0 \<le> p" using assms by simp_all
  note d = int_truediv_unit [OF n(2) assms(2) n(1)]
  show ?thesis
    by (simp add: percent_of_def ebind_def d(1) times_100_unit(1) [OF d(2,3)] percent_complete_def)
qed

subsection \<open>Floats are binary64 numbers\<close>

lemma rhe_abs_le:
  assumes "\<bar>x\<bar> \<le> of_int k"
  shows "\<bar>round_half_even x\<bar> \<le> k"
proof -
  have "x \<le> of_int k" using assms by auto
  then have 1: "round_half_even x \<le> round_half_even (of_int k)" by (rule rhe_mono)
  have "of_int (- k) \<le> x" using assms by auto
  then have 2: "round_half_even (of_int (- k)) \<le> round_half_even x" by (rule rhe_mono)
  from 1 2 show ?thesis unfolding rhe_of_int by simp
qed

lemma binary64_repr:
  "\<exists>r q. binary64 y = of_int r * 2 powi q \<and> - 1074 \<le> q \<and> \<bar>r\<bar> \<le> 2 ^ 53"
proof (cases "y = 0")
  case True
  then show ?thesis by (intro exI [of _ 0]) auto
next
  case False
  define E where "E = max (ilog2 \<bar>y\<bar>) (- 1022)"
  define q where "q = E - 52"
  define r where "r = round_half_even (y / 2 powi q)"
  have y: "0 < \<bar>y\<bar>" using False by simp
  have "\<bar>y\<bar> < 2 powi (ilog2 \<bar>y\<bar> + 1)" using ilog2_bounds [OF y] by simp
  also have "\<dots> \<le> 2 powi (E + 1)" by (simp add: E_def)
  finally have "\<bar>y\<bar> / 2 powi q \<le> 2 powi (E + 1) / 2 powi q" by (simp add: divide_right_mono)
  also have "\<dots> = 2 powi 53" by (simp add: q_def power_int_diff [symmetric])
  also have "\<dots> = of_int (2 ^ 53)" by simp
  finally have "\<bar>y / 2 powi q\<bar> \<le> of_int (2 ^ 53)" by (simp add: abs_divide abs_of_pos)
  then have "\<bar>r\<bar> \<le> 2 ^ 53" unfolding r_def by (rule rhe_abs_le)
  moreover have "binary64 y = of_int r * 2 powi q"
    using False by (simp add: binary64_def Let_def E_def q_def r_def)
  moreover have "- 1074 \<le> q" by (simp add: q_def E_def)
  ultimately show ?thesis by blast
qed

lemma binary64_idem [simp]: "binary64 (binary64 y) = binary64 y"
proof -
  obtain r q where rq: "binary64 y = of_int r * 2 powi q" "- 1074 \<le> q" "\<bar>r\<bar> \<le> 2 ^ 53"
    using binary64_repr by blast
  show ?thesis
  proof (cases "\<bar>r\<bar> < 2 ^ 53")
    case True
    then show ?thesis unfolding rq(1) using rq(2) by (rule binary64_exact)
  next
    case False
    with rq(3) have "r = 2 ^ 53 \<or> r = - (2 ^ 53)" by linarith
    then have "\<exists>s::int. \<bar>s\<bar> < 2 ^ 53 \<and> binary64 y = of_int s * 2 powi (53 + q)"
    proof
      assume "r = 2 ^ 53"
      then have "binary64 y = of_int 1 * 2 powi (53 + q)"
        using rq(1) two_powi_add [of 53 q] by simp
      then show ?thesis by (intro exI [of _ 1]) simp
    next
      assume "r = - (2 ^ 53)"
      then have "binary64 y = of_int (- 1) * 2 powi (53 + q)"
        using rq(1) two_powi_add [of 53 q] by simp
      then show ?thesis by (intro exI [of _ "- 1"]) simp
    qed
    then obtain s :: int where s: "\<bar>s\<bar> < 2 ^ 53" "binary64 y = of_int s * 2 powi (53 + q)" by blast
    show ?thesis unfolding s(2) using s(1) rq(2) by (intro binary64_exact) auto
  qed
qed

text \<open>A binary64 number of magnitude above \<open>2 ^ 52\<close> is an integer.\<close>

lemma binary64_large_is_int:
  assumes "binary64 x = x" and "2 ^ 52 < \<bar>x\<bar>"
  shows "\<exists>k. x = of_int k"
proof -
  obtain r q where rq: "binary64 x = of_int r * 2 powi q" "- 1074 \<le> q" "\<bar>r\<bar> \<le> 2 ^ 53"
    using binary64_repr by blast
  have x: "x = of_int r * 2 powi q" using rq(1) assms(1) by simp
  have "0 \<le> q"
  proof (rule ccontr)
    assume "\<not> 0 \<le> q"
    then have "q \<le> - 1" by simp
    then have "(2::rat) powi q \<le> 2 powi (- 1)" by (simp only: two_powi_le_iff)
    then have "\<bar>of_int r :: rat\<bar> * 2 powi q \<le> \<bar>of_int r\<bar> * 2 powi (- 1)"
      by (intro mult_left_mono) simp_all
    then have "\<bar>x\<bar> \<le> of_int \<bar>r\<bar> * 2 powi (- 1)"
      unfolding x by (simp add: abs_mult)
    also have "\<dots> \<le> of_int (2 ^ 53) * 2 powi (- 1)"
      using rq(3) by (intro mult_right_mono) (simp_all only: of_int_le_iff, simp)
    also have "\<dots> = 2 ^ 52" by simp
    finally show False using assms(2) by simp
  qed
  then have "x = of_int (r * 2 ^ nat q)" by (simp add: x power_int_def)
  then show ?thesis by blast
qed

lemma is_double_to_double [simp]: "is_double (to_double y)"
  by (auto simp: is_double_def to_double_def Let_def)

lemma to_double_double:
  assumes "is_double (Finite x)"
  shows "to_double x = Finite x"
  using assms by (auto simp: is_double_def to_double_def Let_def)

text \<open>\<open>round(x, ndigits)\<close> does not raise on a float.\<close>

lemma float_round_total:
  assumes "is_double a"
  shows "\<exists>r. float_round nd a = Inr r \<and> is_double r"
proof (cases a)
  case (Finite x)
  with assms have x: "binary64 x = x" "\<bar>x\<bar> < 2 ^ 1024" by (auto simp: is_double_def)
  let ?d = "of_int (round_half_even (x * 10 ^ nd)) / 10 ^ nd :: rat"
  have "to_double ?d = Finite (binary64 ?d)"
  proof (cases "2 ^ 52 < \<bar>x\<bar>")
    case True
    then obtain k where k: "x = of_int k" using binary64_large_is_int [OF x(1)] by blast
    have "x * 10 ^ nd = of_int (k * 10 ^ nd)" by (simp add: k)
    then have "round_half_even (x * 10 ^ nd) = k * 10 ^ nd" by (simp only: rhe_of_int)
    then have "?d = x" by (simp add: k)
    then show ?thesis using x by (simp add: to_double_def Let_def abs_less_iff)
  next
    case False
    then have "\<bar>x * 10 ^ nd\<bar> \<le> of_int (2 ^ 52 * 10 ^ nd)"
      by (simp add: abs_mult mult_right_mono)
    then have "\<bar>round_half_even (x * 10 ^ nd)\<bar> \<le> 2 ^ 52 * 10 ^ nd" by (rule rhe_abs_le)
    then have "round_half_even (x * 10 ^ nd) \<le> 2 ^ 52 * 10 ^ nd"
      "- (2 ^ 52 * 10 ^ nd) \<le> round_half_even (x * 10 ^ nd)" by simp_all
    then have "(of_int (round_half_even (x * 10 ^ nd)) :: rat) \<le> of_int (2 ^ 52 * 10 ^ nd)"
      "(of_int (- (2 ^ 52 * 10 ^ nd)) :: rat) \<le> of_int (round_half_even (x * 10 ^ nd))"
      by (simp_all only: of_int_le_iff)
    then have "- (2 ^ 52) \<le> ?d" "?d \<le> 2 ^ 52" by (simp_all add: divide_le_eq le_divide_eq)
    then show ?thesis
      by (intro to_double_between [of "- (2 ^ 52)" _ "2 ^ 52"]) (simp_all add: binary64_minus)
  qed
  then show ?thesis
    using Finite by (simp add: float_round_def to_double_checked_def is_double_def abs_less_iff to_double_def Let_def split: if_splits)
qed (simp_all add: float_round_def is_double_def)

section \<open>The empty sequence\<close>

lemma no_data_dom: "dom no_data = {''ok'', ''msg''}"
  by (auto simp: no_data_def split: if_splits)

text \<open>
  Claim C6. For the empty sequence of BlockMetrics, \<open>summarize\<close> returns the "no data"
  sentinel \<open>{"ok": False, "msg": "No data"}\<close> and does not raise.
\<close>

theorem summarize_empty_no_data:
  "summarize [] = Inr no_data
   \<and> no_data ''ok'' = Some (BoolV False) \<and> no_data ''msg'' = Some (StrV ''No data'')"
  by (simp add: summarize_def no_data_def)

lemma analyze_blocks_nonpositive:
  assumes "eth_block_number w3 = Inr latest" and "n \<le> 0"
  shows "analyze_blocks w3 n = ([CallBlockNumber], Inr [])"
  using assms by (simp add: analyze_blocks_def)

text \<open>
  Claim C8. The sentinel has the keys \<open>ok\<close> and \<open>msg\<close> only. When the analyzed sequence
  is empty, the read of \<open>summary['avg_utilization_percent']\<close> in \<open>main\<close>, which is
  outside the \<open>try\<close> block, raises a \<open>KeyError\<close> that nothing catches, and the exit status
  of the process is neither 0 nor 2.
\<close>

theorem main_empty_sequence_key_error:
  assumes "prefix ''http://'' (rpc a) \<or> prefix ''https://'' (rpc a)"
    and "is_connected w3"
    and "snd (analyze_blocks w3 (count a)) = Inr []"
  shows "dom no_data = {''ok'', ''msg''}
       \<and> main a w3 = Uncaught (KeyError ''avg_utilization_percent'')
       \<and> exit_status (main a w3) \<noteq> 0 \<and> exit_status (main a w3) \<noteq> 2"
  using assms no_data_dom
  by (simp add: main_def ebind_def summarize_def subscript_def no_data_def exit_status_def)

theorem main_empty_sequence_key_error_witness:
  "(prefix ''http://'' (rpc (sample_args 0)) \<or> prefix ''https://'' (rpc (sample_args 0)))
   \<and> is_connected (sample_node 1000)
   \<and> snd (analyze_blocks (sample_node 1000) (count (sample_args 0))) = Inr []
   \<and> main (sample_args 0) (sample_node 1000) = Uncaught (KeyError ''avg_utilization_percent'')
   \<and> exit_status (main (sample_args 0) (sample_node 1000)) = 1"
proof -
  have a: "prefix ''http://'' (rpc (sample_args 0)) \<or> prefix ''https://'' (rpc (sample_args 0))"
    by (simp add: sample_args_def)
  have b: "is_connected (sample_node 1000)"
    by (simp add: sample_node_def)
  have c: "snd (analyze_blocks (sample_node 1000) (count (sample_args 0))) = Inr []"
    by (simp add: sample_args_def sample_node_def analyze_blocks_def)
  from main_empty_sequence_key_error [OF a b c] a b c show ?thesis
    by (simp add: exit_status_def)
qed

section \<open>The loop of \<open>analyze_blocks\<close>\<close>

lemma fst_fetch_gas_data [simp]: "fst (fetch_gas_data w3 b) = [CallGetBlock b]"
  by (simp add: fetch_gas_data_def)

lemma analyze_loop_step:
  assumes "latest - n + 1 \<le> i" and "i \<le> latest"
  shows "analyze_loop w3 latest n (i # js) blocks =
     (case snd (fetch_gas_data w3 (Num i)) of
        Inl e \<Rightarrow> ([notification latest n i, CallGetBlock (Num i)], Inl e)
      | Inr block \<Rightarrow>
          ([notification latest n i, CallGetBlock (Num i)]
             @ fst (analyze_loop w3 latest n js (blocks @ [block])),
           snd (analyze_loop w3 latest n js (blocks @ [block]))))"
proof -
  have p: "percent_of (i - (latest - n + 1) + 1) n = Inr (percent_complete (i - (latest - n + 1) + 1) n)"
    using assms by (intro percent_of_ok) auto
  show ?thesis
    by (simp only: analyze_loop.simps Let_def p sum.case notification_def)
       (simp add: fetch_gas_data_def split: sum.splits prod.splits)
qed

declare analyze_loop.simps(2) [simp del]

text \<open>
  One round of the loop in the event trace: the line for block \<open>i\<close>, then the remote
  call for block \<open>i\<close>.
\<close>

lemma analyze_loop_trace:
  assumes "\<forall>i \<in> set js. latest - n + 1 \<le> i \<and> i \<le> latest"
  shows "\<exists>k \<le> length js.
           fst (analyze_loop w3 latest n js blocks)
             = concat (map (\<lambda>i. [notification latest n i, CallGetBlock (Num i)]) (take k js))
         \<and> ((\<exists>res. snd (analyze_loop w3 latest n js blocks) = Inr res) \<longrightarrow> k = length js)"
  using assms
proof (induction js arbitrary: blocks)
  case Nil
  then show ?case by simp
next
  case (Cons i js)
  have step: "analyze_loop w3 latest n (i # js) blocks =
     (case snd (fetch_gas_data w3 (Num i)) of
        Inl e \<Rightarrow> ([notification latest n i, CallGetBlock (Num i)], Inl e)
      | Inr block \<Rightarrow>
          ([notification latest n i, CallGetBlock (Num i)]
             @ fst (analyze_loop w3 latest n js (blocks @ [block])),
           snd (analyze_loop w3 latest n js (blocks @ [block]))))"
    using Cons.prems by (intro analyze_loop_step) auto
  show ?case
  proof (cases "snd (fetch_gas_data w3 (Num i))")
    case (Inl e)
    then show ?thesis by (intro exI [of _ 1]) (simp add: step)
  next
    case (Inr block)
    from Cons.IH [of "blocks @ [block]"] Cons.prems obtain k where k: "k \<le> length js"
      "fst (analyze_loop w3 latest n js (blocks @ [block]))
         = concat (map (\<lambda>i. [notification latest n i, CallGetBlock (Num i)]) (take k js))"
      "(\<exists>res. snd (analyze_loop w3 latest n js (blocks @ [block])) = Inr res) \<longrightarrow> k = length js"
      by auto
    show ?thesis
      using k Inr by (intro exI [of _ "Suc k"]) (simp add: step)
  qed
qed

lemma analyze_loop_result:
  assumes "\<forall>i \<in> set js. latest - n + 1 \<le> i \<and> i \<le> latest"
    and "\<forall>i \<in> set js. \<exists>m. snd (fetch_gas_data w3 (Num i)) = Inr m \<and> block_number m = i"
  shows "\<exists>ms. snd (analyze_loop w3 latest n js blocks) = Inr (blocks @ ms)
           \<and> map block_number ms = js"
  using assms
proof (induction js arbitrary: blocks)
  case Nil
  then show ?case by simp
next
  case (Cons i js)
  from Cons.prems(2) obtain m where m: "snd (fetch_gas_data w3 (Num i)) = Inr m" "block_number m = i"
    by auto
  from Cons.IH [of "blocks @ [m]"] Cons.prems obtain ms where
    ms: "snd (analyze_loop w3 latest n js (blocks @ [m])) = Inr (blocks @ [m] @ ms)" "map block_number ms = js"
    by auto
  have "analyze_loop w3 latest n (i # js) blocks =
     (case snd (fetch_gas_data w3 (Num i)) of
        Inl e \<Rightarrow> ([notification latest n i, CallGetBlock (Num i)], Inl e)
      | Inr block \<Rightarrow>
          ([notification latest n i, CallGetBlock (Num i)]
             @ fst (analyze_loop w3 latest n js (blocks @ [block])),
           snd (analyze_loop w3 latest n js (blocks @ [block]))))"
    using Cons.prems(1) by (intro analyze_loop_step) auto
  then have "snd (analyze_loop w3 latest n (i # js) blocks) = Inr (blocks @ (m # ms))"
    using m(1) ms(1) by simp
  then show ?case using m(2) ms(2) by (intro exI [of _ "m # ms"]) simp
qed

section \<open>The example node\<close>

declare show_nat.simps [simp del]

lemma utc_isoformat_z_ok:
  assumes "- 62135596800 \<le> t" and "t < 253402300800"
  shows "\<exists>s. utc_isoformat_z t = Inr s"
  using assms by (simp add: utc_isoformat_z_def Let_def split: prod.splits)

lemma utilization_half_full: "utilization 15000000 30000000 = Inr (FloatV (Finite 50))"
proof -
  have h: "binary64 (1 / 2) = 1 / 2" using binary64_exact [of 1 "- 1"] by simp
  have 1: "int_truediv 15000000 30000000 = Inr (Finite (1 / 2))"
    by (simp add: int_truediv_def to_double_checked_def to_double_def h)
  have 2: "float_mul (Finite (1 / 2)) (Finite 100) = Finite 50"
    by (simp add: float_mul_def to_double_def)
  have 3: "float_round 2 (Finite 50) = Inr (Finite 50)"
    by (simp add: float_round_def to_double_checked_def to_double_def)
  show ?thesis by (simp add: utilization_def ebind_def 1 2 3)
qed

lemma sample_node_fetch:
  assumes "0 \<le> i" and "i \<le> head" and "i \<le> 1000000000"
  shows "\<exists>m. snd (fetch_gas_data (sample_node head) (Num i)) = Inr m \<and> block_number m = i
           \<and> gas_limit m = 30000000 \<and> gas_used m = 15000000 \<and> base_fee_wei m = 1000000000
           \<and> utilization_percent m = FloatV (Finite 50)"
proof -
  obtain s where s: "utc_isoformat_z (1700000000 + 12 * i) = Inr s"
    using utc_isoformat_z_ok [of "1700000000 + 12 * i"] assms by auto
  show ?thesis
    using assms
    by (simp add: fetch_gas_data_def sample_node_def ebind_def metrics_of_block_def sample_header_def
        dict_get_def getattr_def utilization_half_full s)
qed

lemma sample_node_unknown:
  assumes "i < 0 \<or> head < i"
  shows "snd (fetch_gas_data (sample_node head) (Num i)) = Inl (Web3Exception ''BlockNotFound'')"
  using assms by (auto simp add: fetch_gas_data_def sample_node_def ebind_def)

section \<open>The range analyzed\<close>

lemma upto_nonempty_last: "i \<le> j \<Longrightarrow> last [i..j] = j"
  by (metis upto_rec2 last_snoc)

lemma analyze_blocks_unfold:
  assumes "eth_block_number w3 = Inr latest"
  shows "analyze_blocks w3 n =
     (CallBlockNumber # fst (analyze_loop w3 latest n [latest - n + 1 .. latest] []),
      snd (analyze_loop w3 latest n [latest - n + 1 .. latest] []))"
  using assms by (simp add: analyze_blocks_def split: prod.splits)




section \<open>Progress lines and negative ranges\<close>




text \<open>
  Claim C9. When \<open>latest - count + 1 < 0\<close>, \<open>analyze_blocks\<close> neither raises an error of
  its own nor clamps the range: after reading the head it prints the line for the
  negative number \<open>latest - count + 1\<close> and asks the node for that block, and if the
  node's call fails, that failure is the outcome.
\<close>

theorem analyze_blocks_negative_range:
  assumes "eth_block_number w3 = Inr latest" and "0 \<le> latest" and "latest - n + 1 < 0"
  shows "take 3 (fst (analyze_blocks w3 n))
           = [CallBlockNumber, notification latest n (latest - n + 1),
              CallGetBlock (Num (latest - n + 1))]
       \<and> (\<forall>e. eth_get_block w3 (Num (latest - n + 1)) = Inl e \<longrightarrow>
              analyze_blocks w3 n
                = ([CallBlockNumber, notification latest n (latest - n + 1),
                    CallGetBlock (Num (latest - n + 1))], Inl e))"
proof -
  have r: "[latest - n + 1 .. latest] = (latest - n + 1) # [latest - n + 1 + 1 .. latest]"
    using assms(2,3) by (intro upto_rec1) simp
  have step: "analyze_loop w3 latest n ((latest - n + 1) # [latest - n + 1 + 1 .. latest]) [] =
     (case snd (fetch_gas_data w3 (Num (latest - n + 1))) of
        Inl e \<Rightarrow> ([notification latest n (latest - n + 1), CallGetBlock (Num (latest - n + 1))], Inl e)
      | Inr block \<Rightarrow>
          ([notification latest n (latest - n + 1), CallGetBlock (Num (latest - n + 1))]
             @ fst (analyze_loop w3 latest n [latest - n + 1 + 1 .. latest] ([] @ [block])),
           snd (analyze_loop w3 latest n [latest - n + 1 + 1 .. latest] ([] @ [block]))))"
    using assms(2,3) by (intro analyze_loop_step) simp_all
  show ?thesis
    unfolding analyze_blocks_unfold [OF assms(1)] r step
    by (auto simp: fetch_gas_data_def ebind_def split: sum.splits)
qed

theorem analyze_blocks_negative_range_witness:
  "eth_block_number (sample_node 0) = Inr 0 \<and> (0::int) \<le> 0 \<and> (0::int) - 2 + 1 < 0
   \<and> analyze_blocks (sample_node 0) 2
       = ([CallBlockNumber, notification 0 2 (- 1), CallGetBlock (Num (- 1))],
          Inl (Web3Exception ''BlockNotFound''))"
proof -
  have 1: "eth_block_number (sample_node 0) = Inr 0" by (simp add: sample_node_def)
  have 2: "(0::int) \<le> 0" and 3: "(0::int) - 2 + 1 < 0" by simp_all
  have e: "eth_get_block (sample_node 0) (Num (0 - 2 + 1)) = Inl (Web3Exception ''BlockNotFound'')"
    by (simp add: sample_node_def)
  from analyze_blocks_negative_range [OF 1 2 3] e 1 show ?thesis by simp
qed

section \<open>What \<open>fetch_gas_data\<close> returns\<close>

lemma iso_1700000000: "utc_isoformat_z 1700000000 = Inr ''2023-11-14T22:13:20Z''"
  by code_simp

lemma utilization_no_limit [simp]: "utilization used 0 = Inr (IntV 0)"
  by (simp add: utilization_def)

lemma utilization_nothing_used:
  assumes "limit \<noteq> 0"
  shows "utilization 0 limit = Inr (FloatV (Finite 0))"
  using assms
  by (simp add: utilization_def int_truediv_def to_double_checked_def to_double_def ebind_def
      float_mul_def float_round_def)

text \<open>
  Claim C1, as the program has it. The three gas fields are read with
  \<open>block.get(key, 0)\<close>: an absent \<open>gasLimit\<close> or \<open>gasUsed\<close> is defaulted to 0 exactly as
  an absent \<open>baseFeePerGas\<close> is, and \<open>fetch_gas_data\<close> returns a record (with
  utilization 0). Only an absent \<open>number\<close> or \<open>timestamp\<close>, read as attributes, makes
  it fail.
\<close>

theorem fetch_missing_fields:
  assumes "eth_get_block w3 bid = Inr block"
  shows "(block ''number'' = None \<or> block ''timestamp'' = None \<longrightarrow>
            (\<exists>e. snd (fetch_gas_data w3 bid) = Inl e))
       \<and> (\<forall>num t iso.
            block ''number'' = Some num \<and> block ''timestamp'' = Some t
            \<and> utc_isoformat_z t = Inr iso
            \<and> (block ''gasLimit'' = None \<or> block ''gasUsed'' = None) \<longrightarrow>
            snd (fetch_gas_data w3 bid)
              = Inr \<lparr>block_number = num,
                     base_fee_wei = dict_get block ''baseFeePerGas'' 0,
                     gas_limit = dict_get block ''gasLimit'' 0,
                     gas_used = dict_get block ''gasUsed'' 0,
                     utilization_percent =
                       (if dict_get block ''gasLimit'' 0 = 0 then IntV 0 else FloatV (Finite 0)),
                     timestamp = iso\<rparr>)"
proof (intro conjI allI impI)
  assume "block ''number'' = None \<or> block ''timestamp'' = None"
  then show "\<exists>e. snd (fetch_gas_data w3 bid) = Inl e"
    using assms
    by (cases "utilization (dict_get block ''gasUsed'' 0) (dict_get block ''gasLimit'' 0)")
       (auto simp: fetch_gas_data_def metrics_of_block_def ebind_def getattr_def Let_def
             split: option.splits sum.splits)
next
  fix num t iso
  assume a: "block ''number'' = Some num \<and> block ''timestamp'' = Some t
      \<and> utc_isoformat_z t = Inr iso \<and> (block ''gasLimit'' = None \<or> block ''gasUsed'' = None)"
  have u: "utilization (dict_get block ''gasUsed'' 0) (dict_get block ''gasLimit'' 0)
      = Inr (if dict_get block ''gasLimit'' 0 = 0 then IntV 0 else FloatV (Finite 0))"
  proof (cases "dict_get block ''gasLimit'' 0 = 0")
    case True
    then show ?thesis by simp
  next
    case False
    then have "block ''gasLimit'' \<noteq> None" by (auto simp: dict_get_def split: option.splits)
    with a have "dict_get block ''gasUsed'' 0 = 0" by (simp add: dict_get_def)
    with False show ?thesis by (simp add: utilization_nothing_used)
  qed
  show "snd (fetch_gas_data w3 bid)
      = Inr \<lparr>block_number = num, base_fee_wei = dict_get block ''baseFeePerGas'' 0,
             gas_limit = dict_get block ''gasLimit'' 0, gas_used = dict_get block ''gasUsed'' 0,
             utilization_percent =
               (if dict_get block ''gasLimit'' 0 = 0 then IntV 0 else FloatV (Finite 0)),
             timestamp = iso\<rparr>"
    using a assms
    by (simp add: fetch_gas_data_def metrics_of_block_def ebind_def getattr_def Let_def u)
qed

theorem fetch_missing_fields_witness:
  "eth_get_block (node_serving header_without_gas_used) (Tag ''latest'') = Inr header_without_gas_used
   \<and> header_without_gas_used ''gasUsed'' = None
   \<and> snd (fetch_gas_data (node_serving header_without_gas_used) (Tag ''latest''))
       = Inr \<lparr>block_number = 7, base_fee_wei = 1000000000, gas_limit = 30000000, gas_used = 0,
              utilization_percent = FloatV (Finite 0), timestamp = ''2023-11-14T22:13:20Z''\<rparr>"
proof -
  have 1: "eth_get_block (node_serving header_without_gas_used) (Tag ''latest'') = Inr header_without_gas_used"
    by (simp add: node_serving_def)
  have 2: "header_without_gas_used ''number'' = Some 7 \<and> header_without_gas_used ''timestamp'' = Some 1700000000
      \<and> utc_isoformat_z 1700000000 = Inr ''2023-11-14T22:13:20Z''
      \<and> (header_without_gas_used ''gasLimit'' = None \<or> header_without_gas_used ''gasUsed'' = None)"
    by (simp add: header_without_gas_used_def iso_1700000000)
  from fetch_missing_fields [OF 1] 2
  have "snd (fetch_gas_data (node_serving header_without_gas_used) (Tag ''latest''))
      = Inr \<lparr>block_number = 7,
             base_fee_wei = dict_get header_without_gas_used ''baseFeePerGas'' 0,
             gas_limit = dict_get header_without_gas_used ''gasLimit'' 0,
             gas_used = dict_get header_without_gas_used ''gasUsed'' 0,
             utilization_percent =
               (if dict_get header_without_gas_used ''gasLimit'' 0 = 0 then IntV 0 else FloatV (Finite 0)),
             timestamp = ''2023-11-14T22:13:20Z''\<rparr>"
    by blast
  then show ?thesis using 1 by (simp add: header_without_gas_used_def dict_get_def)
qed

text \<open>
  Claim C1 as stated fails: for a response without \<open>gasLimit\<close>, \<open>fetch_gas_data\<close> returns
  a BlockMetrics record with \<open>gas_limit = 0\<close> and utilization 0 instead of failing.
\<close>

theorem fetch_without_gas_limit_counterexample:
  "snd (fetch_gas_data (node_serving header_without_gas_limit) (Num 7))
     = Inr \<lparr>block_number = 7, base_fee_wei = 1000000000, gas_limit = 0, gas_used = 15000000,
            utilization_percent = IntV 0, timestamp = ''2023-11-14T22:13:20Z''\<rparr>"
  by (simp add: fetch_gas_data_def node_serving_def metrics_of_block_def ebind_def getattr_def
      dict_get_def header_without_gas_limit_def iso_1700000000)



section \<open>What \<open>summarize\<close> returns\<close>

subsection \<open>The builtins on lists of utilization values\<close>

lemma float_lt_irrefl [simp]: "\<not> float_lt a a"
  by (cases a) (simp_all add: float_lt_def)

lemma float_lt_chain:
  assumes "float_lt m x" and "\<not> float_lt m v"
  shows "\<not> float_lt x v"
  using assms by (cases m; cases x; cases v) (auto simp: float_lt_def)

lemma float_lt_chain2:
  assumes "float_lt x m" and "\<not> float_lt v m"
  shows "\<not> float_lt v x"
  using assms by (cases m; cases x; cases v) (auto simp: float_lt_def)

lemma foldl_max_is_maximum:
  assumes "\<forall>v \<in> S. \<not> num_lt m v" and "m \<in> S"
  shows "foldl (\<lambda>maxitem item. if num_lt maxitem item then item else maxitem) m xs \<in> S \<union> set xs
       \<and> (\<forall>v \<in> S \<union> set xs.
             \<not> num_lt (foldl (\<lambda>maxitem item. if num_lt maxitem item then item else maxitem) m xs) v)"
  using assms
proof (induction xs arbitrary: m S)
  case Nil
  then show ?case by simp
next
  case (Cons x xs)
  let ?m = "if num_lt m x then x else m"
  have "\<forall>v \<in> insert x S. \<not> num_lt ?m v"
    using Cons.prems(1) by (auto simp: num_lt_def dest: float_lt_chain)
  moreover have "?m \<in> insert x S" using Cons.prems(2) by simp
  ultimately show ?case using Cons.IH [of "insert x S" ?m] by simp
qed

lemma foldl_min_is_minimum:
  assumes "\<forall>v \<in> S. \<not> num_lt v m" and "m \<in> S"
  shows "foldl (\<lambda>minitem item. if num_lt item minitem then item else minitem) m xs \<in> S \<union> set xs
       \<and> (\<forall>v \<in> S \<union> set xs.
             \<not> num_lt v (foldl (\<lambda>minitem item. if num_lt item minitem then item else minitem) m xs))"
  using assms
proof (induction xs arbitrary: m S)
  case Nil
  then show ?case by simp
next
  case (Cons x xs)
  let ?m = "if num_lt x m then x else m"
  have "\<forall>v \<in> insert x S. \<not> num_lt v ?m"
    using Cons.prems(1) by (auto simp: num_lt_def dest: float_lt_chain2)
  moreover have "?m \<in> insert x S" using Cons.prems(2) by simp
  ultimately show ?case using Cons.IH [of "insert x S" ?m] by simp
qed

lemma py_max_is_maximum:
  assumes "us \<noteq> []"
  shows "\<exists>h. py_max us = Inr h \<and> is_maximum h us"
proof -
  obtain x xs where us: "us = x # xs" using assms by (cases us) auto
  have "\<forall>v \<in> {x}. \<not> num_lt x v" "x \<in> {x}" by (simp_all add: num_lt_def)
  from foldl_max_is_maximum [OF this, of xs] show ?thesis
    by (simp add: us is_maximum_def)
qed

lemma py_min_is_minimum:
  assumes "us \<noteq> []"
  shows "\<exists>l. py_min us = Inr l \<and> is_minimum l us"
proof -
  obtain x xs where us: "us = x # xs" using assms by (cases us) auto
  have "\<forall>v \<in> {x}. \<not> num_lt v x" "x \<in> {x}" by (simp_all add: num_lt_def)
  from foldl_min_is_minimum [OF this, of xs] show ?thesis
    by (simp add: us is_minimum_def)
qed

lemma float_add_double:
  assumes "is_double a" and "is_double b"
  shows "is_double (float_add a b)"
  using assms by (cases a; cases b) (simp_all add: float_add_def is_double_def [of PosInf] is_double_def [of NegInf] is_double_def [of NaN])

lemma float_div_double:
  assumes "is_double a" and "is_double b"
  shows "is_double (float_div a b)"
  using assms by (cases a; cases b)
    (simp_all add: float_div_def inf_of_sign_def is_double_def [of PosInf] is_double_def [of NegInf] is_double_def [of NaN] is_double_def [of "Finite 0"])

lemma float_of_int_zero [simp]: "float_of_int 0 = Inr (Finite 0)"
  by (simp add: float_of_int_def to_double_checked_def to_double_def)

lemma is_double_zero [simp]: "is_double (Finite 0)"
  by (simp add: is_double_def)

lemma num_add_float_or_zero:
  assumes "float_or_zero a" and "float_or_zero b"
  shows "\<exists>c. num_add a b = Inr c \<and> float_or_zero c"
  using assms
  by (cases a; cases b) (auto simp: float_or_zero_def ebind_def float_add_double)

lemma py_sum_from_total:
  assumes "float_or_zero acc" and "\<forall>u \<in> set us. float_or_zero u"
  shows "\<exists>t. py_sum_from acc us = Inr t \<and> float_or_zero t"
  using assms
proof (induction us arbitrary: acc)
  case Nil
  then show ?case by simp
next
  case (Cons u us)
  then obtain c where c: "num_add acc u = Inr c" "float_or_zero c"
    using num_add_float_or_zero [of acc u] by auto
  with Cons.IH [of c] Cons.prems show ?case by (simp add: ebind_def)
qed

lemma float_of_int_small:
  assumes "0 \<le> n" and "n \<le> 2 ^ 63"
  shows "\<exists>y. float_of_int n = Inr (Finite y) \<and> is_double (Finite y) \<and> (0 < n \<longrightarrow> y \<noteq> 0)"
proof -
  have e: "binary64 (2 ^ 63) = 2 ^ 63" using binary64_exact [of 1 63] by simp
  have b: "0 \<le> binary64 (of_int n)" "binary64 (of_int n) \<le> 2 ^ 63"
    using binary64_between [of 0 "of_int n" "2 ^ 63"] assms e
    by (simp_all add: of_int_le_numeral_power_cancel_iff)
  have pos: "binary64 (of_int n) \<noteq> 0" if "0 < n"
  proof -
    have "1 \<le> (of_int n :: rat)" using that by simp
    from binary64_mono [OF this] show ?thesis by simp
  qed
  have "to_double (of_int n) = Finite (binary64 (of_int n))"
    using b by (intro to_double_finite) simp_all
  then show ?thesis using pos
    by (simp add: float_of_int_def to_double_checked_def is_double_def) (use b in simp)
qed

lemma num_truediv_int_total:
  assumes "float_or_zero t" and "0 < n" and "n \<le> 2 ^ 63"
  shows "\<exists>a. num_truediv_int t n = Inr a \<and> is_double a"
proof (cases t)
  case (IntV i)
  with assms(1) have "i = 0" by (simp add: float_or_zero_def)
  then show ?thesis using IntV assms(2)
    by (simp add: int_truediv_def to_double_checked_def to_double_def)
next
  case (FloatV x)
  obtain y where y: "float_of_int n = Inr (Finite y)" "is_double (Finite y)" "y \<noteq> 0"
    using float_of_int_small [of n] assms by auto
  have "is_double (float_div x (Finite y))"
    using FloatV assms(1) y(2) by (intro float_div_double) (simp_all add: float_or_zero_def)
  then show ?thesis using FloatV y by (simp add: ebind_def float_truediv_def)
qed

lemma num_round_total:
  assumes "float_or_zero u"
  shows "\<exists>r. num_round nd u = Inr r \<and> float_or_zero r"
proof (cases u)
  case (IntV i)
  then show ?thesis using assms by simp
next
  case (FloatV a)
  with assms obtain r where "float_round nd a = Inr r" "is_double r"
    using float_round_total [of a nd] by (auto simp: float_or_zero_def)
  then show ?thesis using FloatV by (simp add: ebind_def float_or_zero_def)
qed

subsection \<open>The statistics\<close>





subsection \<open>Minimum, mean and maximum\<close>

text \<open>
  Claim C4 as stated fails. Three blocks with \<open>gasLimit = 1\<close> and
  \<open>gasUsed = 8097313701392197\<close> have the utilization \<open>809731370139219712.0\<close> each; the
  float sum of the three is rounded, and the mean that \<open>summarize\<close> returns is
  \<open>809731370139219584.0\<close>, which is below the minimum.
\<close>

lemma overfull_roundings:
  "binary64 809731370139219700 = 809731370139219712"
  "binary64 809731370139219712 = 809731370139219712"
  "binary64 1619462740278439424 = 1619462740278439424"
  "binary64 2429194110417659136 = 2429194110417658880"
  "binary64 (2429194110417658880 / 3) = 809731370139219584"
  "binary64 809731370139219584 = 809731370139219584"
  by code_simp+


subsection \<open>Utilization between 0 and 100\<close>

lemma rhe_near_int:
  assumes "\<bar>x - of_int k\<bar> < 1 / 2"
  shows "round_half_even x = k"
proof -
  have "of_int (round_half_even x) < (of_int k + 1 :: rat)"
    using rhe_upper [of x] assms by linarith
  moreover have "(of_int k - 1 :: rat) < of_int (round_half_even x)"
    using rhe_lower [of x] assms by linarith
  ultimately have "round_half_even x < k + 1" "k - 1 < round_half_even x"
    by (metis of_int_1 of_int_add of_int_less_iff, metis of_int_1 of_int_diff of_int_less_iff)
  then show ?thesis by simp
qed

text \<open>Below 4096 a float is within \<open>2 powi -40\<close> of the number it rounds.\<close>

lemma binary64_error_small:
  assumes "0 \<le> x" and "x \<le> 4096"
  shows "\<bar>binary64 x - x\<bar> \<le> 2 powi (- 40)"
proof -
  define m where "m = \<lfloor>x * 2 ^ 40\<rfloor>"
  have m0: "0 \<le> m" using assms(1) by (simp add: m_def)
  have "x * 2 ^ 40 \<le> 4096 * 2 ^ 40" using assms(2) by simp
  then have "m \<le> \<lfloor>4096 * 2 ^ 40 :: rat\<rfloor>" unfolding m_def by (rule floor_mono)
  then have m1: "m \<le> 2 ^ 52" by simp
  have lo: "of_int m * 2 powi (- 40) \<le> x"
  proof -
    have "of_int m \<le> x * 2 ^ 40" by (simp add: m_def)
    then show ?thesis by (simp add: power_int_minus field_simps)
  qed
  have hi: "x \<le> of_int (m + 1) * 2 powi (- 40)"
  proof -
    have "x * 2 ^ 40 \<le> of_int (m + 1)" unfolding m_def by linarith
    then show ?thesis by (simp add: power_int_minus field_simps)
  qed
  have ea: "binary64 (of_int m * 2 powi (- 40)) = of_int m * 2 powi (- 40)"
    using m0 m1 by (intro binary64_exact) auto
  have eb: "binary64 (of_int (m + 1) * 2 powi (- 40)) = of_int (m + 1) * 2 powi (- 40)"
    using m0 m1 by (intro binary64_exact) auto
  from binary64_between [OF lo hi ea eb]
  have "of_int m * 2 powi (- 40) \<le> binary64 x" "binary64 x \<le> of_int (m + 1) * 2 powi (- 40)"
    by simp_all
  moreover have "of_int (m + 1) * 2 powi (- 40) = of_int m * 2 powi (- 40) + (2 powi (- 40) :: rat)"
    by (simp add: algebra_simps)
  ultimately show ?thesis using lo hi by linarith
qed

lemma percent_value_bounds:
  assumes "0 \<le> k" and "k \<le> 10000"
  shows "0 \<le> percent_value k" and "percent_value k \<le> 100"
    and "\<bar>percent_value k - of_int k / 100\<bar> \<le> 2 powi (- 40)"
proof -
  have q: "0 \<le> (of_int k / 100 :: rat)" "(of_int k / 100 :: rat) \<le> 100" using assms by simp_all
  from binary64_between [OF q] show "0 \<le> percent_value k" "percent_value k \<le> 100"
    by (simp_all add: percent_value_def)
  show "\<bar>percent_value k - of_int k / 100\<bar> \<le> 2 powi (- 40)"
    unfolding percent_value_def using q by (intro binary64_error_small) simp_all
qed

lemma percent_value_mono: "j \<le> k \<Longrightarrow> percent_value j \<le> percent_value k"
  unfolding percent_value_def by (intro binary64_mono) (simp add: divide_right_mono)

lemma percent_value_double:
  assumes "0 \<le> k" and "k \<le> 10000"
  shows "to_double (of_int k / 100) = Finite (percent_value k)"
  using assms unfolding percent_value_def
  by (intro to_double_between [of 0 _ 100]) simp_all

text \<open>Rounding a value with two decimals to two decimals returns it.\<close>

lemma float_round_percent_value:
  assumes "0 \<le> k" and "k \<le> 10000"
  shows "float_round 2 (Finite (percent_value k)) = Inr (Finite (percent_value k))"
proof -
  have "percent_value k * 100 - of_int k = (percent_value k - of_int k / 100) * 100"
    by (simp add: algebra_simps)
  then have "\<bar>percent_value k * 100 - of_int k\<bar> = \<bar>percent_value k - of_int k / 100\<bar> * 100"
    by (simp only: abs_mult)
  also have "\<dots> \<le> 2 powi (- 40) * 100"
    using percent_value_bounds(3) [OF assms] by simp
  also have "\<dots> < 1 / 2" by (simp add: power_int_minus)
  finally have "round_half_even (percent_value k * 100) = k" by (rule rhe_near_int)
  then show ?thesis
    by (simp add: float_round_def to_double_checked_def percent_value_double [OF assms])
qed

text \<open>What \<open>round(x, 2)\<close> returns for a float between 0 and 100.\<close>

lemma float_round_2_percent:
  assumes "0 \<le> x" and "x \<le> 100"
  shows "\<exists>k. 0 \<le> k \<and> k \<le> 10000 \<and> k = round_half_even (x * 100)
           \<and> float_round 2 (Finite x) = Inr (Finite (percent_value k))"
proof -
  define k where "k = round_half_even (x * 100)"
  have "round_half_even (of_int 0) \<le> k" unfolding k_def using assms(1) by (intro rhe_mono) simp
  then have k0: "0 \<le> k" by (simp only: rhe_of_int)
  have "k \<le> round_half_even (of_int 10000)" unfolding k_def using assms(2) by (intro rhe_mono) simp
  then have k1: "k \<le> 10000" by (simp only: rhe_of_int)
  show ?thesis
    using k0 k1 percent_value_double [OF k0 k1]
    by (intro exI [of _ k]) (simp add: float_round_def to_double_checked_def k_def)
qed

lemma utilization_is_percent:
  assumes "0 \<le> used" and "used \<le> limit"
  shows "\<exists>u. utilization used limit = Inr u \<and> is_percent u"
proof (cases "limit = 0")
  case True
  then show ?thesis by (simp add: is_percent_def)
next
  case False
  with assms have l: "0 < limit" by simp
  note d = int_truediv_unit [OF assms l]
  note p = times_100_unit [OF d(2,3)]
  obtain k where k: "0 \<le> k" "k \<le> 10000"
    "float_round 2 (Finite (binary64 (binary64 (of_int used / of_int limit) * 100)))
       = Inr (Finite (percent_value k))"
    using float_round_2_percent [OF p(2,3)] by blast
  show ?thesis
    using False k by (simp add: utilization_def ebind_def d(1) p(1) is_percent_def) auto
qed

lemma is_percent_value:
  assumes "is_percent u"
  shows "\<exists>k. 0 \<le> k \<and> k \<le> 10000 \<and> exact u = Finite (percent_value k)
           \<and> num_value u = percent_value k \<and> num_round 2 u = Inr u"
  using assms
proof (unfold is_percent_def, elim disjE bexE)
  assume "u = IntV 0"
  then show ?thesis
    by (intro exI [of _ 0]) (simp add: exact_def num_value_def percent_value_def)
next
  fix k :: int assume "k \<in> {0 .. 10000}" and "u = FloatV (Finite (percent_value k))"
  then show ?thesis
    by (intro exI [of _ k])
       (simp add: exact_def num_value_def ebind_def float_round_percent_value)
qed

lemma is_percent_within:
  assumes "is_percent u"
  shows "within_0_100 u"
proof -
  obtain k where k: "0 \<le> k" "k \<le> 10000" "exact u = Finite (percent_value k)"
    using is_percent_value [OF assms] by blast
  have e: "exact (IntV 0) = Finite 0" "exact (IntV 100) = Finite 100" by (simp_all add: exact_def)
  show ?thesis
    using percent_value_bounds(1,2) [OF k(1,2)]
    by (auto simp: within_0_100_def num_le_def float_le_def float_lt_def k(3) e)
qed

subsection \<open>The float sum between two exact sums\<close>

text \<open>
  The multiples \<open>j * (A / 1024)\<close> with \<open>0 \<le> A \<le> 102400\<close> and \<open>j \<le> 2 ^ 36\<close> have at most 53
  significant bits, so rounding does not change them. A float sum of \<open>j\<close> utilization
  values between \<open>a = A / 1024\<close> and \<open>b = B / 1024\<close> therefore stays between \<open>j * a\<close> and
  \<open>j * b\<close>, because rounding is monotone.
\<close>

lemma grid_exact:
  assumes "0 \<le> A" and "A \<le> 102400" and "j \<le> 2 ^ 36"
  shows "binary64 (of_nat j * (of_int A * 2 powi (- 10))) = of_nat j * (of_int A * 2 powi (- 10))"
proof -
  have "int j * A \<le> 2 ^ 36 * 102400"
    using assms by (intro mult_mono) auto
  then have "\<bar>int j * A\<bar> < 2 ^ 53" using assms(1) by simp
  from binary64_exact [OF this, of "- 10"] show ?thesis by (simp add: mult.assoc)
qed

lemma grid_finite:
  assumes "0 \<le> A" and "A \<le> 102400" and "j \<le> 2 ^ 36"
  shows "0 \<le> of_nat j * (of_int A * 2 powi (- 10) :: rat)"
    and "of_nat j * (of_int A * 2 powi (- 10) :: rat) < 2 ^ 1024"
proof -
  show "0 \<le> of_nat j * (of_int A * 2 powi (- 10) :: rat)" using assms(1) by simp
  have "of_nat j * (of_int A * 2 powi (- 10) :: rat) \<le> of_nat j * (of_int A * 1)"
    using assms(1) by (intro mult_left_mono) (simp_all add: power_int_minus)
  also have "\<dots> = of_int (int j * A)" by simp
  also have "\<dots> \<le> of_int (2 ^ 36 * 102400)"
    using assms by (intro iffD2 [OF of_int_le_iff] mult_mono) auto
  also have "\<dots> < (2 ^ 1024 :: rat)" by simp
  finally show "of_nat j * (of_int A * 2 powi (- 10) :: rat) < 2 ^ 1024" .
qed

lemma is_percent_cases:
  assumes "is_percent u"
  obtains "u = IntV 0" | v where "u = FloatV (Finite v)"
  using assms by (auto simp: is_percent_def)

lemma sum_step:
  assumes A: "0 \<le> A" "A \<le> 102400" and B: "0 \<le> B" "B \<le> 102400"
    and a: "a = of_int A * 2 powi (- 10)" and b: "b = of_int B * 2 powi (- 10)"
    and inv: "sum_inv a b j acc"
    and u: "is_percent u" "a \<le> num_value u" "num_value u \<le> b"
    and j: "Suc j \<le> 2 ^ 36"
  shows "\<exists>acc'. num_add acc u = Inr acc' \<and> sum_inv a b (Suc j) acc'"
proof -
  have a0: "0 \<le> a" and b0: "0 \<le> b" using A(1) B(1) by (simp_all add: a b)
  have i: "of_nat j * a \<le> num_value acc" "num_value acc \<le> of_nat j * b"
    using inv by (simp_all add: sum_inv_def)
  have s: "of_nat (Suc j) * a = of_nat j * a + a" "of_nat (Suc j) * b = of_nat j * b + b"
    by (simp_all add: distrib_right)
  have lo: "of_nat (Suc j) * a \<le> num_value acc + num_value u"
    and hi: "num_value acc + num_value u \<le> of_nat (Suc j) * b"
    unfolding s using i u(2,3) by linarith+
  have ea: "binary64 (of_nat (Suc j) * a) = of_nat (Suc j) * a"
    unfolding a using A j by (rule grid_exact)
  have eb: "binary64 (of_nat (Suc j) * b) = of_nat (Suc j) * b"
    unfolding b using B j by (rule grid_exact)
  have fa: "- (2 ^ 1024) < of_nat (Suc j) * a"
    using grid_finite(1) [OF A j] unfolding a by (rule_tac y = 0 in less_le_trans) simp_all
  have fb: "of_nat (Suc j) * b < 2 ^ 1024"
    using grid_finite(2) [OF B j] unfolding b .
  have fin: "to_double (num_value acc + num_value u) = Finite (binary64 (num_value acc + num_value u))"
    using lo hi ea eb fa fb by (rule to_double_between)
  have bet: "of_nat (Suc j) * a \<le> binary64 (num_value acc + num_value u)"
    "binary64 (num_value acc + num_value u) \<le> of_nat (Suc j) * b"
    using binary64_between [OF lo hi ea eb] by simp_all
  have float_case: "sum_inv a b (Suc j) (FloatV (to_double (num_value acc + num_value u)))"
    unfolding fin using bet by (simp add: sum_inv_def num_value_def)
  from inv have "acc = IntV 0 \<or> (\<exists>s. acc = FloatV (Finite s))" by (simp add: sum_inv_def)
  then show ?thesis
  proof (elim disjE exE)
    assume acc: "acc = IntV 0"
    from u(1) show ?thesis
    proof (cases rule: is_percent_cases)
      case 1
      have "a \<le> 0" using u(2) 1 by (simp add: num_value_def)
      with a0 have "a = 0" by simp
      then show ?thesis using acc 1 b0 by (simp add: sum_inv_def num_value_def)
    next
      case (2 v)
      show ?thesis using float_case acc 2 by (simp add: ebind_def float_add_def num_value_def)
    qed
  next
    fix s assume acc: "acc = FloatV (Finite s)"
    from u(1) show ?thesis
    proof (cases rule: is_percent_cases)
      case 1
      show ?thesis using float_case acc 1 by (simp add: ebind_def float_add_def num_value_def)
    next
      case (2 v)
      show ?thesis using float_case acc 2 by (simp add: float_add_def num_value_def)
    qed
  qed
qed

lemma sum_sandwich:
  assumes A: "0 \<le> A" "A \<le> 102400" and B: "0 \<le> B" "B \<le> 102400"
    and a: "a = of_int A * 2 powi (- 10)" and b: "b = of_int B * 2 powi (- 10)"
    and inv: "sum_inv a b j acc"
    and us: "\<forall>u \<in> set us. is_percent u \<and> a \<le> num_value u \<and> num_value u \<le> b"
    and j: "j + length us \<le> 2 ^ 36"
  shows "\<exists>t. py_sum_from acc us = Inr t \<and> sum_inv a b (j + length us) t"
  using inv us j
proof (induction us arbitrary: j acc)
  case Nil
  then show ?case by simp
next
  case (Cons u us)
  have "\<exists>acc'. num_add acc u = Inr acc' \<and> sum_inv a b (Suc j) acc'"
    using A B a b Cons.prems(1) by (rule sum_step) (use Cons.prems(2,3) in auto)
  then obtain acc' where acc': "num_add acc u = Inr acc'" "sum_inv a b (Suc j) acc'" by blast
  from Cons.IH [OF acc'(2)] Cons.prems(2,3)
  obtain t where "py_sum_from acc' us = Inr t" "sum_inv a b (Suc j + length us) t" by auto
  then show ?case using acc'(1) by (simp add: ebind_def)
qed

lemma mean_sandwich:
  assumes A: "0 \<le> A" "A \<le> 102400" and B: "0 \<le> B" "B \<le> 102400"
    and a: "a = of_int A * 2 powi (- 10)" and b: "b = of_int B * 2 powi (- 10)"
    and inv: "sum_inv a b n t" and n: "0 < n" "n \<le> 2 ^ 36"
  shows "\<exists>x. num_truediv_int t (int n) = Inr (Finite x) \<and> a \<le> x \<and> x \<le> b"
proof -
  have b0: "0 \<le> b" using B(1) by (simp add: b)
  have ea: "binary64 a = a" using grid_exact [OF A, of 1] by (simp add: a)
  have eb: "binary64 b = b" using grid_exact [OF B, of 1] by (simp add: b)
  have fa: "- (2 ^ 1024) < a" using grid_finite(1) [OF A, of 1] unfolding a by simp
  have fb: "b < 2 ^ 1024" using grid_finite(2) [OF B, of 1] unfolding b by simp
  have lo: "a \<le> num_value t / of_nat n" and hi: "num_value t / of_nat n \<le> b"
    using inv n(1) by (simp_all add: sum_inv_def le_divide_eq divide_le_eq mult.commute)
  have fin: "to_double (num_value t / of_nat n) = Finite (binary64 (num_value t / of_nat n))"
    using lo hi ea eb fa fb by (rule to_double_between)
  note bet = binary64_between [OF lo hi ea eb]
  from inv have "t = IntV 0 \<or> (\<exists>s. t = FloatV (Finite s))" by (simp add: sum_inv_def)
  then show ?thesis
  proof (elim disjE exE)
    assume t: "t = IntV 0"
    have "num_truediv_int t (int n) = Inr (Finite (binary64 (num_value t / of_nat n)))"
      using n(1) fin by (simp add: t int_truediv_def to_double_checked_def num_value_def)
    then show ?thesis using bet by blast
  next
    fix s assume t: "t = FloatV (Finite s)"
    have "int n \<le> 2 ^ 36" using n(2) by (metis of_nat_le_iff of_nat_numeral of_nat_power)
    then have en: "binary64 (of_int (int n)) = of_int (int n)"
      by (intro binary64_of_int) simp
    have "to_double (of_int (int n)) = Finite (of_int (int n))"
      using n(2) \<open>int n \<le> 2 ^ 36\<close> unfolding to_double_def Let_def en
      by (auto simp: not_le)
    then have f: "float_of_int (int n) = Inr (Finite (of_nat n))"
      by (simp add: float_of_int_def to_double_checked_def)
    have "num_truediv_int t (int n) = Inr (Finite (binary64 (num_value t / of_nat n)))"
      using n(1) fin by (simp add: t f ebind_def float_truediv_def float_div_def num_value_def)
    then show ?thesis using bet by blast
  qed
qed

text \<open>
  The grid point below a minimum \<open>percent_value k\<close> and the one above a maximum still
  round, to two decimals, to \<open>k\<close> hundredths or beyond.
\<close>

lemma grid_below:
  assumes "0 \<le> k" and "k \<le> 10000"
  shows "\<exists>A. 0 \<le> A \<and> A \<le> 102400 \<and> of_int A * 2 powi (- 10) \<le> percent_value k
           \<and> k \<le> round_half_even (of_int A * 2 powi (- 10) * 100)"
proof -
  define m where "m = percent_value k"
  define A where "A = \<lfloor>m * 2 ^ 10\<rfloor>"
  note pv = percent_value_bounds [OF assms, folded m_def]
  have A0: "0 \<le> A" using pv(1) by (simp add: A_def)
  have "m * 2 ^ 10 \<le> 100 * 2 ^ 10" using pv(2) by simp
  then have "A \<le> \<lfloor>100 * 2 ^ 10 :: rat\<rfloor>" unfolding A_def by (rule floor_mono)
  then have A1: "A \<le> 102400" by simp
  have lo: "of_int A \<le> m * 2 ^ 10" and hi: "m * 2 ^ 10 < of_int A + 1"
    unfolding A_def by linarith+
  have le: "of_int A * 2 powi (- 10) \<le> m"
    using lo by (simp add: power_int_minus field_simps)
  have "m < of_int A * 2 powi (- 10) + 2 powi (- 10)"
    using hi by (simp add: power_int_minus field_simps)
  moreover have "of_int k / 100 - 2 powi (- 40) \<le> m" using pv(3) by linarith
  ultimately have "of_int k / 100 - 2 powi (- 40) - 2 powi (- 10) < (of_int A * 2 powi (- 10) :: rat)"
    by linarith
  then have "of_int k - 100 * (2 powi (- 40) + 2 powi (- 10)) < (of_int A * 2 powi (- 10) * 100 :: rat)"
    by (simp add: field_simps)
  moreover have "100 * (2 powi (- 40) + 2 powi (- 10)) < (1 / 2 :: rat)"
    by (simp add: power_int_minus)
  ultimately have "of_int k - 1 / 2 < (of_int A * 2 powi (- 10) * 100 :: rat)" by linarith
  then have "(of_int k - 1 :: rat) < of_int (round_half_even (of_int A * 2 powi (- 10) * 100))"
    using rhe_lower [of "of_int A * 2 powi (- 10) * 100"] by linarith
  then have "k - 1 < round_half_even (of_int A * 2 powi (- 10) * 100)"
    by (metis of_int_1 of_int_diff of_int_less_iff)
  then show ?thesis using A0 A1 le unfolding m_def by (intro exI [of _ A]) simp
qed

lemma grid_above:
  assumes "0 \<le> k" and "k \<le> 10000"
  shows "\<exists>B. 0 \<le> B \<and> B \<le> 102400 \<and> percent_value k \<le> of_int B * 2 powi (- 10)
           \<and> round_half_even (of_int B * 2 powi (- 10) * 100) \<le> k"
proof -
  define m where "m = percent_value k"
  define B where "B = \<lceil>m * 2 ^ 10\<rceil>"
  note pv = percent_value_bounds [OF assms, folded m_def]
  have "0 \<le> m * 2 ^ 10" using pv(1) by simp
  then have B0: "0 \<le> B" unfolding B_def by (simp add: ceiling_le_iff le_ceiling_iff)
  have "m * 2 ^ 10 \<le> 100 * 2 ^ 10" using pv(2) by simp
  then have "B \<le> \<lceil>100 * 2 ^ 10 :: rat\<rceil>" unfolding B_def by (rule ceiling_mono)
  then have B1: "B \<le> 102400" by simp
  have hi: "m * 2 ^ 10 \<le> of_int B" and lo: "of_int B - 1 < m * 2 ^ 10"
    unfolding B_def by linarith+
  have ge: "m \<le> of_int B * 2 powi (- 10)"
    using hi by (simp add: power_int_minus field_simps)
  have "of_int B * 2 powi (- 10) - 2 powi (- 10) < m"
    using lo by (simp add: power_int_minus field_simps)
  moreover have "m \<le> of_int k / 100 + 2 powi (- 40)" using pv(3) by linarith
  ultimately have "(of_int B * 2 powi (- 10) :: rat) < of_int k / 100 + 2 powi (- 40) + 2 powi (- 10)"
    by linarith
  then have "(of_int B * 2 powi (- 10) * 100 :: rat) < of_int k + 100 * (2 powi (- 40) + 2 powi (- 10))"
    by (simp add: field_simps)
  moreover have "100 * (2 powi (- 40) + 2 powi (- 10)) < (1 / 2 :: rat)"
    by (simp add: power_int_minus)
  ultimately have "(of_int B * 2 powi (- 10) * 100 :: rat) < of_int k + 1 / 2" by linarith
  then have "of_int (round_half_even (of_int B * 2 powi (- 10) * 100)) < (of_int k + 1 :: rat)"
    using rhe_upper [of "of_int B * 2 powi (- 10) * 100"] by linarith
  then have "round_half_even (of_int B * 2 powi (- 10) * 100) < k + 1"
    by (metis of_int_1 of_int_add of_int_less_iff)
  then show ?thesis using B0 B1 ge unfolding m_def by (intro exI [of _ B]) simp
qed

lemma round_sandwich:
  assumes "a \<le> x" and "x \<le> b" and "0 \<le> klo" and "khi \<le> 10000"
    and "klo \<le> round_half_even (a * 100)" and "round_half_even (b * 100) \<le> khi"
  shows "\<exists>y. float_round 2 (Finite x) = Inr (Finite y)
           \<and> percent_value klo \<le> y \<and> y \<le> percent_value khi"
proof -
  define k where "k = round_half_even (x * 100)"
  have "round_half_even (a * 100) \<le> k" unfolding k_def using assms(1) by (intro rhe_mono) simp
  then have k0: "klo \<le> k" using assms(5) by simp
  have "k \<le> round_half_even (b * 100)" unfolding k_def using assms(2) by (intro rhe_mono) simp
  then have k1: "k \<le> khi" using assms(6) by simp
  have "to_double (of_int k / 100) = Finite (percent_value k)"
    using k0 k1 assms(3,4) by (intro percent_value_double) simp_all
  then have "float_round 2 (Finite x) = Inr (Finite (percent_value k))"
    by (simp add: float_round_def to_double_checked_def k_def)
  then show ?thesis using percent_value_mono [OF k0] percent_value_mono [OF k1] by blast
qed

lemma is_percent_exact:
  assumes "is_percent u"
  shows "exact u = Finite (num_value u)"
  using assms by (auto simp: is_percent_def exact_def num_value_def)

lemma summarize_percentages:
  assumes ne: "blocks \<noteq> []" and len: "length blocks \<le> 2 ^ 36"
    and pc: "\<forall>b \<in> set blocks. is_percent (utilization_percent b)"
    and fee: "int_truediv (sum_list (map base_fee_wei blocks)) (int (length blocks)) = Inr mean_fee"
  shows "\<exists>lo avg hi r_fee.
           summarize blocks
             = Inr [''avg_utilization_percent'' \<mapsto> NumV (FloatV (Finite avg)),
                    ''max_utilization_percent'' \<mapsto> NumV hi,
                    ''min_utilization_percent'' \<mapsto> NumV lo,
                    ''avg_base_fee_gwei'' \<mapsto> NumV (FloatV r_fee),
                    ''total_blocks'' \<mapsto> NumV (IntV (int (length blocks)))]
         \<and> is_percent lo \<and> is_percent hi \<and> num_value lo \<le> avg \<and> avg \<le> num_value hi"
proof -
  let ?us = "map utilization_percent blocks"
  have us: "\<forall>u \<in> set ?us. is_percent u" "?us \<noteq> []" using ne pc by auto
  obtain low where low: "py_min ?us = Inr low" "is_minimum low ?us"
    using py_min_is_minimum [OF us(2)] by blast
  obtain high where high: "py_max ?us = Inr high" "is_maximum high ?us"
    using py_max_is_maximum [OF us(2)] by blast
  have pl: "is_percent low" and ph: "is_percent high"
    using low(2) high(2) us(1) by (auto simp: is_minimum_def is_maximum_def)
  obtain klo where klo: "0 \<le> klo" "klo \<le> 10000" "num_value low = percent_value klo"
    "num_round 2 low = Inr low"
    using is_percent_value [OF pl] by blast
  obtain khi where khi: "0 \<le> khi" "khi \<le> 10000" "num_value high = percent_value khi"
    "num_round 2 high = Inr high"
    using is_percent_value [OF ph] by blast
  have ge_low: "num_value low \<le> num_value u" if "u \<in> set ?us" for u
  proof -
    have "\<not> num_lt u low" using low(2) that unfolding is_minimum_def by blast
    moreover have "is_percent u" using us(1) that by blast
    ultimately show ?thesis
      by (simp add: num_lt_def is_percent_exact pl float_lt_def)
  qed
  have le_high: "num_value u \<le> num_value high" if "u \<in> set ?us" for u
  proof -
    have "\<not> num_lt high u" using high(2) that unfolding is_maximum_def by blast
    moreover have "is_percent u" using us(1) that by blast
    ultimately show ?thesis
      by (simp add: num_lt_def is_percent_exact ph float_lt_def)
  qed
  obtain A where A: "0 \<le> A" "A \<le> 102400" "of_int A * 2 powi (- 10) \<le> percent_value klo"
    "klo \<le> round_half_even (of_int A * 2 powi (- 10) * 100)"
    using grid_below [OF klo(1,2)] by blast
  obtain B where B: "0 \<le> B" "B \<le> 102400" "percent_value khi \<le> of_int B * 2 powi (- 10)"
    "round_half_even (of_int B * 2 powi (- 10) * 100) \<le> khi"
    using grid_above [OF khi(1,2)] by blast
  define a b :: rat where "a = of_int A * 2 powi (- 10)" and "b = of_int B * 2 powi (- 10)"
  have inv0: "sum_inv a b 0 (IntV 0)" by (simp add: sum_inv_def num_value_def)
  have bounds: "\<forall>u \<in> set ?us. is_percent u \<and> a \<le> num_value u \<and> num_value u \<le> b"
  proof
    fix u assume u: "u \<in> set ?us"
    have "a \<le> num_value u" using ge_low [OF u] A(3) klo(3) by (simp add: a_def)
    moreover have "num_value u \<le> b" using le_high [OF u] B(3) khi(3) by (simp add: b_def)
    ultimately show "is_percent u \<and> a \<le> num_value u \<and> num_value u \<le> b" using us(1) u by blast
  qed
  have "0 + length ?us \<le> 2 ^ 36" using len by simp
  from sum_sandwich [OF A(1,2) B(1,2) a_def b_def inv0 bounds this]
  obtain t where t: "py_sum ?us = Inr t" "sum_inv a b (length blocks) t"
    by (auto simp: py_sum_def)
  have n: "0 < length blocks" using ne by simp
  from mean_sandwich [OF A(1,2) B(1,2) a_def b_def t(2) n len]
  obtain x where x: "num_truediv_int t (int (length blocks)) = Inr (Finite x)" "a \<le> x" "x \<le> b"
    by blast
  from round_sandwich [OF x(2,3) klo(1) khi(2)] A(4) B(4)
  obtain y where y: "float_round 2 (Finite x) = Inr (Finite y)"
    "percent_value klo \<le> y" "y \<le> percent_value khi"
    unfolding a_def b_def by blast
  have "is_double mean_fee"
    using fee by (auto simp: int_truediv_def to_double_checked_def split: if_splits pyfloat.splits)
  then have "is_double (float_div mean_fee (Finite 1000000000))"
    by (intro float_div_double) (simp_all add: is_double_def)
  then obtain r_fee where r_fee: "float_round 3 (float_div mean_fee (Finite 1000000000)) = Inr r_fee"
    using float_round_total by blast
  have "summarize blocks
      = Inr [''avg_utilization_percent'' \<mapsto> NumV (FloatV (Finite y)),
             ''max_utilization_percent'' \<mapsto> NumV high,
             ''min_utilization_percent'' \<mapsto> NumV low,
             ''avg_base_fee_gwei'' \<mapsto> NumV (FloatV r_fee),
             ''total_blocks'' \<mapsto> NumV (IntV (int (length blocks)))]"
    using ne fee t(1) x(1) y(1) high(1) low(1) klo(4) khi(4) r_fee
    by (simp add: summarize_def ebind_def Let_def float_truediv_def)
  moreover have "num_value low \<le> y" "y \<le> num_value high"
    using y(2,3) klo(3) khi(3) by simp_all
  ultimately show ?thesis using pl ph by blast
qed

lemma summarize_fee_defined:
  assumes "blocks \<noteq> []" and "summarize blocks = Inr s"
  shows "\<exists>f. int_truediv (sum_list (map base_fee_wei blocks)) (int (length blocks)) = Inr f"
  using assms
  by (cases "int_truediv (sum_list (map base_fee_wei blocks)) (int (length blocks))")
     (auto simp: summarize_def ebind_def Let_def split: sum.splits)

lemma derived_is_percent:
  assumes "derived_utilization b" and "0 \<le> gas_used b" and "gas_used b \<le> gas_limit b"
  shows "is_percent (utilization_percent b)"
  using utilization_is_percent [OF assms(2,3)] assms(1) by (auto simp: derived_utilization_def)

lemma fetch_derived:
  assumes "snd (fetch_gas_data w3 bid) = Inr m"
  shows "derived_utilization m"
proof -
  from assms obtain block where "metrics_of_block block = Inr m"
    by (auto simp: fetch_gas_data_def ebind_def split: sum.splits)
  then show ?thesis
    by (auto simp: metrics_of_block_def ebind_def Let_def derived_utilization_def split: sum.splits)
qed

lemma percent_le_float:
  assumes "is_percent lo" and "num_value lo \<le> avg"
  shows "num_le lo (FloatV (Finite avg))"
proof -
  have "exact (FloatV (Finite avg)) = Finite avg" by (simp add: exact_def)
  then show ?thesis
    using assms(2) by (auto simp: num_le_def float_le_def float_lt_def is_percent_exact [OF assms(1)])
qed

lemma float_le_percent:
  assumes "is_percent hi" and "avg \<le> num_value hi"
  shows "num_le (FloatV (Finite avg)) hi"
proof -
  have "exact (FloatV (Finite avg)) = Finite avg" by (simp add: exact_def)
  then show ?thesis
    using assms(2) by (auto simp: num_le_def float_le_def float_lt_def is_percent_exact [OF assms(1)])
qed

lemma between_percents_within:
  assumes "is_percent lo" and "is_percent hi" and "num_value lo \<le> avg" and "avg \<le> num_value hi"
  shows "within_0_100 (FloatV (Finite avg))"
proof -
  obtain j where j: "0 \<le> j" "j \<le> 10000" "num_value lo = percent_value j"
    using is_percent_value [OF assms(1)] by blast
  obtain k where k: "0 \<le> k" "k \<le> 10000" "num_value hi = percent_value k"
    using is_percent_value [OF assms(2)] by blast
  have "0 \<le> avg" "avg \<le> 100"
    using percent_value_bounds(1) [OF j(1,2)] percent_value_bounds(2) [OF k(1,2)] assms(3,4) j(3) k(3)
    by simp_all
  then show ?thesis
    by (auto simp: within_0_100_def num_le_def float_le_def float_lt_def exact_def)
qed



subsection \<open>Utilization stays within 0 and 100\<close>



subsection \<open>A float sum that runs ahead of the exact sum\<close>

lemma py_sum_from_append:
  "py_sum_from acc (xs @ ys) = ebind (py_sum_from acc xs) (\<lambda>a. py_sum_from a ys)"
  by (induction xs arbitrary: acc) (auto simp: ebind_def split: sum.splits)

text \<open>
  Adding \<open>j\<close> times the float \<open>v\<close> to \<open>s\<close>, when each addition is rounded to an increase
  by \<open>d\<close>.
\<close>

lemma py_sum_from_run:
  assumes "\<And>i. i < j \<Longrightarrow> binary64 (s + of_nat i * d + v) = s + of_nat (Suc i) * d"
    and "0 \<le> s" and "0 \<le> d" and "s + of_nat j * d < 2 ^ 1024"
  shows "py_sum_from (FloatV (Finite s)) (replicate j (FloatV (Finite v)))
           = Inr (FloatV (Finite (s + of_nat j * d)))"
  using assms
proof (induction j arbitrary: s)
  case 0
  then show ?case by simp
next
  case (Suc j)
  have r: "binary64 (s + v) = s + d" using Suc.prems(1) [of 0] by simp
  have "s + d \<le> s + of_nat (Suc j) * d"
    using Suc.prems(3) by (simp add: mult_nonneg_nonneg distrib_right)
  then have "s + d < 2 ^ 1024" using Suc.prems(4) by linarith
  moreover have "- (2 ^ 1024) < s + d"
    using Suc.prems(2,3) by (rule_tac y = 0 in less_le_trans) simp_all
  ultimately have step: "float_add (Finite s) (Finite v) = Finite (s + d)"
    by (simp add: float_add_def to_double_def r)
  have "py_sum_from (FloatV (Finite (s + d))) (replicate j (FloatV (Finite v)))
      = Inr (FloatV (Finite (s + d + of_nat j * d)))"
  proof (rule Suc.IH)
    fix i assume "i < j"
    then have "binary64 (s + of_nat (Suc i) * d + v) = s + of_nat (Suc (Suc i)) * d"
      using Suc.prems(1) [of "Suc i"] by simp
    then show "binary64 (s + d + of_nat i * d + v) = s + d + of_nat (Suc i) * d"
      by (simp add: distrib_right add.assoc)
  next
    show "0 \<le> s + d" using Suc.prems(2,3) by simp
    show "0 \<le> d" by fact
    show "s + d + of_nat j * d < 2 ^ 1024" using Suc.prems(4) by (simp add: distrib_right add.assoc)
  qed
  then show ?case by (simp add: step distrib_right add.assoc ebind_def)
qed

text \<open>
  From \<open>2 ^ 58\<close> up to \<open>2 ^ 60\<close> floats are multiples of 64 or of 128, and adding \<open>100.0\<close>
  rounds up to the next multiple of 128.
\<close>

lemma add_100_rounds_up:
  assumes "2 ^ 51 \<le> t" and "t < 2 ^ 53"
  shows "binary64 (128 * of_int t + 100) = 128 * (of_int t + 1)"
proof (cases "t < 2 ^ 52")
  case True
  let ?x = "128 * of_int t + 100 :: rat"
  have lo: "(2::rat) ^ 58 \<le> ?x"
  proof -
    have "(of_int (2 ^ 51) :: rat) \<le> of_int t" using assms(1) by (simp only: of_int_le_iff)
    then show ?thesis by simp
  qed
  have hi: "?x < 2 ^ 59"
  proof -
    have "t + 1 \<le> 2 ^ 52" using True by simp
    then have "(of_int (t + 1) :: rat) \<le> of_int (2 ^ 52)" by (simp only: of_int_le_iff)
    then show ?thesis by simp
  qed
  have "ilog2 ?x = 58" using lo hi by (intro ilog2_unique) simp_all
  moreover have "0 < ?x" using lo by (rule_tac y = "2 ^ 58" in less_le_trans) simp_all
  ultimately have b: "binary64 ?x = of_int (round_half_even (?x / 2 powi 6)) * 2 powi 6"
    by (simp add: binary64_def Let_def abs_of_pos)
  have e: "?x / 2 powi 6 = of_int (2 * t + 1) + 9 / 16" by (simp add: field_simps)
  have "round_half_even (of_int (2 * t + 1) + 9 / 16) = 2 * t + 2"
    by (intro rhe_near_int) (simp add: field_simps)
  then have "round_half_even (?x / 2 powi 6) = 2 * t + 2" by (simp only: e)
  then show ?thesis unfolding b by (simp add: field_simps)
next
  case False
  let ?x = "128 * of_int t + 100 :: rat"
  have lo: "(2::rat) ^ 59 \<le> ?x"
  proof -
    have "2 ^ 52 \<le> t" using False by simp
    then have "(of_int (2 ^ 52) :: rat) \<le> of_int t" by (simp only: of_int_le_iff)
    then show ?thesis by simp
  qed
  have hi: "?x < 2 ^ 60"
  proof -
    have "t + 1 \<le> 2 ^ 53" using assms(2) by simp
    then have "(of_int (t + 1) :: rat) \<le> of_int (2 ^ 53)" by (simp only: of_int_le_iff)
    then show ?thesis by simp
  qed
  have "ilog2 ?x = 59" using lo hi by (intro ilog2_unique) simp_all
  moreover have "0 < ?x" using lo by (rule_tac y = "2 ^ 59" in less_le_trans) simp_all
  ultimately have b: "binary64 ?x = of_int (round_half_even (?x / 2 powi 7)) * 2 powi 7"
    by (simp add: binary64_def Let_def abs_of_pos)
  have e: "?x / 2 powi 7 = of_int t + 25 / 32" by (simp add: field_simps)
  have "round_half_even (of_int t + 25 / 32) = t + 1"
    by (intro rhe_near_int) (simp add: field_simps)
  then have "round_half_even (?x / 2 powi 7) = t + 1" by (simp only: e)
  then show ?thesis unfolding b by (simp add: field_simps)
qed

lemma foldl_replicate_fixed:
  assumes "f m x = m"
  shows "foldl f m (replicate j x) = m"
  by (induction j) (simp_all add: assms)

lemma sum_of_64s:
  assumes "0 < n" and "n \<le> 2 ^ 52"
  shows "py_sum_from (IntV 0) (replicate n (FloatV (Finite 64)))
           = Inr (FloatV (Finite (64 * of_nat n)))"
proof -
  obtain k where k: "n = Suc k" using assms(1) by (cases n) auto
  have first: "float_add (Finite 0) (Finite 64) = Finite 64"
    by (simp add: float_add_def to_double_def)
  have run: "py_sum_from (FloatV (Finite 64)) (replicate k (FloatV (Finite 64)))
      = Inr (FloatV (Finite (64 + of_nat k * 64)))"
  proof (rule py_sum_from_run)
    fix i assume i: "i < k"
    have "int i + 2 \<le> 2 ^ 52" using i assms(2) k by simp
    then have "\<bar>int i + 2\<bar> < 2 ^ 53" by simp
    then have ex: "binary64 (of_int (int i + 2) * 2 powi 6) = of_int (int i + 2) * 2 powi 6"
      by (intro binary64_exact) simp_all
    have e1: "(of_int (int i + 2) * 2 powi 6 :: rat) = 64 + of_nat i * 64 + 64" by simp
    have e2: "(64 + of_nat i * 64 + 64 :: rat) = 64 + of_nat (Suc i) * 64" by simp
    from ex show "binary64 (64 + of_nat i * 64 + 64) = 64 + of_nat (Suc i) * 64"
      unfolding e1 by (simp only: e2)
  next
    have "(of_nat k :: rat) \<le> of_nat (2 ^ 52)" using assms(2) k by (simp only: of_nat_le_iff)
    then have "64 + of_nat k * 64 \<le> (64 + 2 ^ 52 * 64 :: rat)" by simp
    also have "\<dots> < 2 ^ 1024" by simp
    finally show "64 + of_nat k * 64 < (2 ^ 1024 :: rat)" .
  qed simp_all
  show ?thesis
    by (simp add: k first run ebind_def algebra_simps)
qed

lemma sum_of_100s:
  assumes "n \<le> 3 * 2 ^ 51"
  shows "py_sum_from (FloatV (Finite (2 ^ 58))) (replicate n (FloatV (Finite 100)))
           = Inr (FloatV (Finite (2 ^ 58 + of_nat n * 128)))"
proof (rule py_sum_from_run)
  fix i assume i: "i < n"
  have t: "2 ^ 51 \<le> 2 ^ 51 + int i" "2 ^ 51 + int i < 2 ^ 53"
    using i assms by simp_all
  have e1: "(128 * of_int (2 ^ 51 + int i) + 100 :: rat) = 2 ^ 58 + of_nat i * 128 + 100"
    by simp
  have e2: "(128 * (of_int (2 ^ 51 + int i) + 1) :: rat) = 2 ^ 58 + of_nat (Suc i) * 128"
    by simp
  from add_100_rounds_up [OF t]
  show "binary64 (2 ^ 58 + of_nat i * 128 + 100) = 2 ^ 58 + of_nat (Suc i) * 128"
    unfolding e1 e2 .
next
  have "(of_nat n :: rat) \<le> of_nat (3 * 2 ^ 51)" using assms by (simp only: of_nat_le_iff)
  then have "2 ^ 58 + of_nat n * 128 \<le> (2 ^ 58 + 3 * 2 ^ 51 * 128 :: rat)" by simp
  also have "\<dots> < 2 ^ 1024" by simp
  finally show "2 ^ 58 + of_nat n * 128 < (2 ^ 1024 :: rat)" .
qed simp_all

lemma long_roundings:
  "binary64 (16 / 25) = 5764607523034235 / 9007199254740992"
  "binary64 (5764607523034235 / 9007199254740992 * 100) = 64"
  "binary64 (512 / 5) = 3602879701896397 / 35184372088832"
  "round_half_even (3602879701896397 / 35184372088832 * 100) = 10240"
  by code_simp+

lemma utilization_16_of_25: "utilization 16 25 = Inr (FloatV (Finite 64))"
proof -
  note r = long_roundings
  have q: "int_truediv 16 25 = Inr (Finite (5764607523034235 / 9007199254740992))"
    by (simp add: int_truediv_def to_double_checked_def to_double_def r)
  have "to_double (5764607523034235 / 9007199254740992 * 100) = Finite 64"
    by (simp only: to_double_def Let_def r) simp
  then have p: "float_mul (Finite (5764607523034235 / 9007199254740992)) (Finite 100) = Finite 64"
    by (simp only: float_mul_def prod.case pyfloat.case)
  have f: "float_round 2 (Finite 64) = Inr (Finite 64)"
    by (simp add: float_round_def to_double_checked_def to_double_def)
  show ?thesis
    by (simp only: utilization_def q p f ebind_def sum.case) simp
qed

lemma utilization_full: "utilization 30000000 30000000 = Inr (FloatV (Finite 100))"
  by (simp add: utilization_def int_truediv_def to_double_checked_def to_double_def ebind_def
      float_mul_def float_round_def)

lemma long_summary:
  assumes n1: "n1 = 2 ^ 52" and n2: "n2 = 3 * 2 ^ 51"
  shows "summarize (replicate n1 steady_block @ replicate n2 full_block)
       = Inr [''avg_utilization_percent'' \<mapsto> NumV (FloatV (Finite (3602879701896397 / 35184372088832))),
              ''max_utilization_percent'' \<mapsto> NumV (FloatV (Finite 100)),
              ''min_utilization_percent'' \<mapsto> NumV (FloatV (Finite 64)),
              ''avg_base_fee_gwei'' \<mapsto> NumV (FloatV (Finite 0)),
              ''total_blocks'' \<mapsto> NumV (IntV 11258999068426240)]"
proof -
  note r = long_roundings
  let ?blocks = "replicate n1 steady_block @ replicate n2 full_block"
  let ?us = "replicate n1 (FloatV (Finite 64)) @ replicate n2 (FloatV (Finite 100))"
  have pos: "0 < n1" "0 < n2" by (simp_all add: n1 n2)
  have ne: "?blocks \<noteq> []" using pos by simp
  have us: "map utilization_percent ?blocks = ?us"
    by (simp add: steady_block_def full_block_def)
  have len: "int (length ?blocks) = 11258999068426240" by (simp add: n1 n2)
  have len2: "int n1 + int n2 = 11258999068426240" by (simp add: n1 n2)
  have fees: "sum_list (map base_fee_wei ?blocks) = 0"
    by (simp add: steady_block_def full_block_def sum_list_replicate)
  have s1: "py_sum_from (IntV 0) (replicate n1 (FloatV (Finite 64))) = Inr (FloatV (Finite (2 ^ 58)))"
  proof -
    have "(64 * of_nat n1 :: rat) = 2 ^ 58" by (simp add: n1)
    then show ?thesis using sum_of_64s [of n1] pos(1) n1 by simp
  qed
  have s2: "py_sum_from (FloatV (Finite (2 ^ 58))) (replicate n2 (FloatV (Finite 100)))
      = Inr (FloatV (Finite (2 ^ 60)))"
  proof -
    have "(2 ^ 58 + of_nat n2 * 128 :: rat) = 2 ^ 60" by (simp add: n2)
    then show ?thesis using sum_of_100s [of n2] n2 by simp
  qed
  have total: "py_sum ?us = Inr (FloatV (Finite (2 ^ 60)))"
    unfolding py_sum_def py_sum_from_append s1 by (simp only: ebind_def sum.case s2)
  have e: "binary64 11258999068426240 = 11258999068426240"
    using binary64_exact [of 5 51] by simp
  have fn: "float_of_int 11258999068426240 = Inr (Finite 11258999068426240)"
    by (simp add: float_of_int_def to_double_checked_def to_double_def e)
  have "(2 ^ 60 / 11258999068426240 :: rat) = 512 / 5" by simp
  then have "to_double (2 ^ 60 / 11258999068426240) = Finite (3602879701896397 / 35184372088832)"
    by (simp only: to_double_def Let_def r) simp
  then have avg: "float_truediv (Finite (2 ^ 60)) (Finite 11258999068426240)
      = Inr (Finite (3602879701896397 / 35184372088832))"
    by (simp add: float_truediv_def float_div_def del: power_numeral)
  have "(of_int 10240 / 10 ^ 2 :: rat) = 512 / 5" by simp
  then have "to_double (of_int 10240 / 10 ^ 2) = Finite (3602879701896397 / 35184372088832)"
    by (simp only: to_double_def Let_def r) simp
  moreover have "round_half_even (3602879701896397 / 35184372088832 * 10 ^ 2) = 10240"
    using r(4) by simp
  ultimately have ravg: "float_round 2 (Finite (3602879701896397 / 35184372088832))
      = Inr (Finite (3602879701896397 / 35184372088832))"
    by (simp only: float_round_def pyfloat.case to_double_checked_def)
  obtain k1 where k1: "n1 = Suc k1" using pos(1) by (cases n1) auto
  obtain k2 where k2: "n2 = Suc k2" using pos(2) by (cases n2) auto
  have lt: "num_lt (FloatV (Finite 64)) (FloatV (Finite 100))"
    "\<not> num_lt (FloatV (Finite 100)) (FloatV (Finite 64))"
    "\<not> num_lt (FloatV (Finite 64)) (FloatV (Finite 64))"
    "\<not> num_lt (FloatV (Finite 100)) (FloatV (Finite 100))"
    by (simp_all add: num_lt_def exact_def float_lt_def)
  have mx: "py_max ?us = Inr (FloatV (Finite 100))"
    by (simp add: k1 k2 lt foldl_replicate_fixed)
  have mn: "py_min ?us = Inr (FloatV (Finite 64))"
    by (simp add: k1 k2 lt foldl_replicate_fixed)
  have rr: "float_round 2 (Finite 100) = Inr (Finite 100)" "float_round 2 (Finite 64) = Inr (Finite 64)"
    "float_round 3 (Finite 0) = Inr (Finite 0)"
    by (simp_all add: float_round_def to_double_checked_def to_double_def)
  have fz: "int_truediv 0 11258999068426240 = Inr (Finite 0)"
    by (simp add: int_truediv_def to_double_checked_def to_double_def)
  have gz: "float_truediv (Finite 0) (Finite 1000000000) = Inr (Finite 0)"
    by (simp add: float_truediv_def float_div_def to_double_def)
  show ?thesis
    unfolding summarize_def Let_def us length_map len fees total
    using pos
    by (simp add: ebind_def len2 fn avg ravg mx mn rr fz gz del: power_numeral)
qed


end
